theory Spec2Isabelle
  imports Complex_Main
begin

section \<open>Errors and sequencing\<close>

text \<open>
  Every way the Python code can leave a method other than by \<open>return\<close> is a value:
  a failed \<open>assert\<close> is \<open>AssertionError\<close>, a call with the wrong number of
  arguments is \<open>TypeError\<close>, \<open>raise NotImplementedError\<close> is itself, and the
  errors of the tensor library and of \<open>broadcast_shape\<close> are \<open>RuntimeError\<close>,
  \<open>IndexError\<close> and \<open>ValueError\<close>.
\<close>

datatype error =
  AssertionError | TypeError | NotImplementedError | RuntimeError | IndexError | ValueError

definition bindE :: "error + 'a \<Rightarrow> ('a \<Rightarrow> error + 'b) \<Rightarrow> error + 'b" where
  "bindE m f = (case m of Inl e \<Rightarrow> Inl e | Inr x \<Rightarrow> f x)"

section \<open>Tensors\<close>

text \<open>
  A tensor is its shape (outermost dimension first, as \<open>t.shape\<close> prints it) and its
  entries, read by a multi-index of the same length. Entries are real numbers: the
  model is of the exact arithmetic the floating-point code approximates. \<open>mk\<close> builds
  a tensor from an entry function and fixes the entries outside the shape to 0, so that
  two tensors built by \<open>mk\<close> with the same shape and the same entries inside it are
  equal.
\<close>

record tensor =
  shape :: "nat list"
  elems :: "nat list \<Rightarrow> real"

definition valid_index :: "nat list \<Rightarrow> nat list \<Rightarrow> bool" where
  "valid_index shp idx \<longleftrightarrow> list_all2 (<) idx shp"

definition mk :: "nat list \<Rightarrow> (nat list \<Rightarrow> real) \<Rightarrow> tensor" where
  "mk shp f = \<lparr>shape = shp, elems = (\<lambda>idx. if valid_index shp idx then f idx else 0)\<rparr>"

text \<open>A zero-dimensional tensor holding one number, and a vector and a matrix from lists.\<close>

definition scalar :: "real \<Rightarrow> tensor" where
  "scalar x = mk [] (\<lambda>_. x)"

definition vec :: "real list \<Rightarrow> tensor" where
  "vec xs = mk [length xs] (\<lambda>idx. xs ! hd idx)"

definition mat :: "nat \<Rightarrow> real list list \<Rightarrow> tensor" where
  "mat ncols rows = mk [length rows, ncols] (\<lambda>idx. rows ! hd idx ! hd (tl idx))"

text \<open>\<open>t.dim()\<close>, \<open>t.size(-1)\<close> (an IndexError on a zero-dimensional tensor), and the
  Python slices \<open>shape[:-k]\<close> and \<open>shape[-k:]\<close> of a shape tuple.\<close>

definition ndim :: "tensor \<Rightarrow> nat" where
  "ndim t = length (shape t)"

definition size_last :: "tensor \<Rightarrow> error + nat" where
  "size_last t = (if shape t = [] then Inl IndexError else Inr (last (shape t)))"

definition shape_upto :: "nat \<Rightarrow> nat list \<Rightarrow> nat list" where
  "shape_upto k shp = take (length shp - k) shp"

definition shape_from :: "nat \<Rightarrow> nat list \<Rightarrow> nat list" where
  "shape_from k shp = drop (length shp - k) shp"

subsection \<open>Broadcasting\<close>

text \<open>
  Shapes are aligned at their last dimension; two sizes are compatible when they are
  equal or one of them is 1. \<open>bcr\<close> works on reversed shapes. \<open>bidx shp idx\<close> is the
  index at which a tensor of shape \<open>shp\<close> is read when it is broadcast to a shape that
  \<open>idx\<close> indexes: the trailing components of \<open>idx\<close>, with 0 along dimensions of size 1.
\<close>

fun bcr :: "nat list \<Rightarrow> nat list \<Rightarrow> nat list option" where
  "bcr [] ys = Some ys"
| "bcr (x # xs) [] = Some (x # xs)"
| "bcr (x # xs) (y # ys) =
     (if x = y \<or> x = 1 \<or> y = 1
      then map_option ((#) (if x = 1 then y else x)) (bcr xs ys)
      else None)"

definition bshape :: "nat list \<Rightarrow> nat list \<Rightarrow> nat list option" where
  "bshape a b = map_option rev (bcr (rev a) (rev b))"

definition bidx :: "nat list \<Rightarrow> nat list \<Rightarrow> nat list" where
  "bidx shp idx =
     map2 (\<lambda>d i. if d = 1 then 0 else i) shp (drop (length idx - length shp) idx)"

text \<open>\<open>pyro.distributions.util.broadcast_shape(*shapes)\<close>: the broadcast of any number
  of shapes, a ValueError when they do not fit.\<close>

fun broadcast_from :: "nat list \<Rightarrow> nat list list \<Rightarrow> error + nat list" where
  "broadcast_from acc [] = Inr acc"
| "broadcast_from acc (s # ss) =
     (case bshape acc s of None \<Rightarrow> Inl ValueError | Some c \<Rightarrow> broadcast_from c ss)"

definition broadcast_shape :: "nat list list \<Rightarrow> error + nat list" where
  "broadcast_shape shapes = broadcast_from [] shapes"

subsection \<open>Elementwise operations\<close>

definition tmap :: "(real \<Rightarrow> real) \<Rightarrow> tensor \<Rightarrow> tensor" where
  "tmap f a = mk (shape a) (\<lambda>idx. f (elems a idx))"

definition tbin :: "(real \<Rightarrow> real \<Rightarrow> real) \<Rightarrow> tensor \<Rightarrow> tensor \<Rightarrow> error + tensor" where
  "tbin f a b =
     (case bshape (shape a) (shape b) of
        None \<Rightarrow> Inl RuntimeError
      | Some shp \<Rightarrow>
          Inr (mk shp (\<lambda>idx. f (elems a (bidx (shape a) idx)) (elems b (bidx (shape b) idx)))))"

definition tadd :: "tensor \<Rightarrow> tensor \<Rightarrow> error + tensor" where
  "tadd = tbin (+)"

definition tsub :: "tensor \<Rightarrow> tensor \<Rightarrow> error + tensor" where
  "tsub = tbin (-)"

definition tmul :: "tensor \<Rightarrow> tensor \<Rightarrow> error + tensor" where
  "tmul = tbin (*)"

text \<open>\<open>t.log()\<close>, \<open>t.pow(2)\<close>, and the arithmetic of a tensor with a Python number.\<close>

definition tlog :: "tensor \<Rightarrow> tensor" where
  "tlog = tmap ln"

definition tpow2 :: "tensor \<Rightarrow> tensor" where
  "tpow2 = tmap (\<lambda>x. x ^ 2)"

definition smul :: "real \<Rightarrow> tensor \<Rightarrow> tensor" where
  "smul c = tmap (\<lambda>x. c * x)"

definition sadd :: "tensor \<Rightarrow> real \<Rightarrow> tensor" where
  "sadd a c = tmap (\<lambda>x. x + c) a"

definition ssub :: "tensor \<Rightarrow> real \<Rightarrow> tensor" where
  "ssub a c = tmap (\<lambda>x. x - c) a"

definition rsub :: "real \<Rightarrow> tensor \<Rightarrow> tensor" where
  "rsub c a = tmap (\<lambda>x. c - x) a"

subsection \<open>Views: unsqueeze, squeeze, transpose, diagonal, expand\<close>

text \<open>\<open>t.unsqueeze(-1)\<close> adds a last dimension of size 1; \<open>t.squeeze(-1)\<close> removes the
  last dimension when its size is 1 and returns the tensor as it is otherwise.\<close>

definition unsqueeze_last :: "tensor \<Rightarrow> tensor" where
  "unsqueeze_last t = mk (shape t @ [1]) (\<lambda>idx. elems t (butlast idx))"

definition squeeze_last :: "tensor \<Rightarrow> tensor" where
  "squeeze_last t =
     (if shape t \<noteq> [] \<and> last (shape t) = 1
      then mk (butlast (shape t)) (\<lambda>idx. elems t (idx @ [0]))
      else t)"

text \<open>\<open>t.transpose(-1, -2)\<close> and \<open>t.diagonal(dim1=-2, dim2=-1)\<close>; both need two
  dimensions.\<close>

definition transpose_last :: "tensor \<Rightarrow> error + tensor" where
  "transpose_last t =
     (let s = shape t; k = length s in
      if k < 2 then Inl IndexError
      else Inr (mk (take (k - 2) s @ [s ! (k - 1), s ! (k - 2)])
             (\<lambda>idx. elems t (take (k - 2) idx @ [idx ! (k - 1), idx ! (k - 2)]))))"

definition diagonal_last :: "tensor \<Rightarrow> error + tensor" where
  "diagonal_last t =
     (let s = shape t; k = length s in
      if k < 2 then Inl IndexError
      else Inr (mk (take (k - 2) s @ [min (s ! (k - 2)) (s ! (k - 1))])
             (\<lambda>idx. elems t (butlast idx @ [last idx, last idx]))))"

text \<open>
  \<open>t.expand(sizes)\<close>: \<open>sizes\<close> has at least as many entries as \<open>t\<close> has dimensions;
  aligned at the end, an entry is the size of the dimension, or \<open>-1\<close> to keep it, or
  anything non-negative where the dimension has size 1; entries for new leading
  dimensions are non-negative. \<open>expand_r\<close> works on the reversed lists.
\<close>

fun expand_r :: "nat list \<Rightarrow> int list \<Rightarrow> nat list option" where
  "expand_r [] [] = Some []"
| "expand_r [] (z # zs) = (if z < 0 then None else map_option ((#) (nat z)) (expand_r [] zs))"
| "expand_r (d # ds) [] = None"
| "expand_r (d # ds) (z # zs) =
     (if z = -1 \<or> z = int d then map_option ((#) d) (expand_r ds zs)
      else if d = 1 \<and> 0 \<le> z then map_option ((#) (nat z)) (expand_r ds zs)
      else None)"

definition expand :: "tensor \<Rightarrow> int list \<Rightarrow> error + tensor" where
  "expand t sizes =
     (case expand_r (rev (shape t)) (rev sizes) of
        None \<Rightarrow> Inl RuntimeError
      | Some r \<Rightarrow> Inr (mk (rev r) (\<lambda>idx. elems t (bidx (shape t) idx))))"

subsection \<open>Reductions and products\<close>

text \<open>\<open>t.sum(-1)\<close>: the sum along the last dimension (a zero-dimensional tensor is
  returned as it is).\<close>

definition sum_last :: "tensor \<Rightarrow> tensor" where
  "sum_last t =
     (if shape t = [] then t
      else mk (butlast (shape t)) (\<lambda>idx. \<Sum>i\<leftarrow>[0..<last (shape t)]. elems t (idx @ [i])))"

text \<open>
  \<open>a.matmul(b)\<close> for operands of at least two dimensions, the only way this module
  calls it (a block of the precision matrix against an unsqueezed vector or another
  block): the batch dimensions broadcast, the inner sizes must agree. Operands of fewer
  dimensions are not multiplied by the model.
\<close>

definition matmul :: "tensor \<Rightarrow> tensor \<Rightarrow> error + tensor" where
  "matmul a b =
     (let sa = shape a; sb = shape b in
      if length sa < 2 \<or> length sb < 2 then Inl RuntimeError
      else
        let ba = shape_upto 2 sa; bb = shape_upto 2 sb;
            m = sa ! (length sa - 2); k = last sa; p = last sb in
        if sb ! (length sb - 2) \<noteq> k then Inl RuntimeError
        else case bshape ba bb of
          None \<Rightarrow> Inl RuntimeError
        | Some bs \<Rightarrow>
            Inr (mk (bs @ [m, p])
              (\<lambda>idx. let bi = take (length bs) idx;
                         i = idx ! length bs; j = idx ! Suc (length bs)
                     in \<Sum>l\<leftarrow>[0..<k]. elems a (bidx ba bi @ [i, l]) * elems b (bidx bb bi @ [l, j]))))"

subsection \<open>Indexing\<close>

text \<open>
  An index tuple holds integers, slices \<open>start:stop:step\<close>, \<open>...\<close> and \<open>None\<close>.
  \<open>resolve\<close> matches it against a shape: an integer picks one position of a dimension
  (negative integers count from the end, out of range is an IndexError), a slice keeps a
  range of it (bounds clamped as Python does, the step must be positive), \<open>None\<close> adds
  a dimension of size 1, \<open>...\<close> stands for full slices of the dimensions no other
  entry takes, and dimensions left over at the end are kept whole.
\<close>

datatype index = Index int | Slice "int option" "int option" "int option" | Ellipsis | NewAxis

datatype sel = Pick nat | Range nat nat nat | New

definition clamp_bound :: "int option \<Rightarrow> nat \<Rightarrow> nat \<Rightarrow> nat" where
  "clamp_bound b dflt len =
     (case b of
        None \<Rightarrow> dflt
      | Some i \<Rightarrow> if i < 0 then nat (max (i + int len) 0) else min (nat i) len)"

fun consuming :: "index \<Rightarrow> bool" where
  "consuming (Index _) = True"
| "consuming (Slice _ _ _) = True"
| "consuming Ellipsis = False"
| "consuming NewAxis = False"

fun resolve :: "index list \<Rightarrow> nat list \<Rightarrow> error + sel list" where
  "resolve [] ds = Inr (map (Range 0 1) ds)"
| "resolve (NewAxis # is) ds = bindE (resolve is ds) (\<lambda>r. Inr (New # r))"
| "resolve (Ellipsis # is) ds =
     (let c = length (filter consuming is) in
      if Ellipsis \<in> set is \<or> length ds < c then Inl IndexError
      else bindE (resolve is (drop (length ds - c) ds))
             (\<lambda>r. Inr (map (Range 0 1) (take (length ds - c) ds) @ r)))"
| "resolve (Index i # is) [] = Inl IndexError"
| "resolve (Index i # is) (d # ds) =
     (let j = (if i < 0 then i + int d else i) in
      if j < 0 \<or> int d \<le> j then Inl IndexError
      else bindE (resolve is ds) (\<lambda>r. Inr (Pick (nat j) # r)))"
| "resolve (Slice a b c # is) [] = Inl IndexError"
| "resolve (Slice a b c # is) (d # ds) =
     (let step = (case c of None \<Rightarrow> 1 | Some st \<Rightarrow> st) in
      if step \<le> 0 then Inl ValueError
      else
        let lo = clamp_bound a 0 d; hi = clamp_bound b d d;
            n = (if lo < hi then (hi - lo + nat step - 1) div nat step else 0)
        in bindE (resolve is ds) (\<lambda>r. Inr (Range lo (nat step) n # r)))"

fun sel_shape :: "sel list \<Rightarrow> nat list" where
  "sel_shape [] = []"
| "sel_shape (Pick _ # ss) = sel_shape ss"
| "sel_shape (Range _ _ n # ss) = n # sel_shape ss"
| "sel_shape (New # ss) = 1 # sel_shape ss"

fun sel_src :: "sel list \<Rightarrow> nat list \<Rightarrow> nat list" where
  "sel_src [] idx = []"
| "sel_src (Pick i # ss) idx = i # sel_src ss idx"
| "sel_src (Range lo st _ # ss) idx = (lo + hd idx * st) # sel_src ss (tl idx)"
| "sel_src (New # ss) idx = sel_src ss (tl idx)"

definition getitem :: "tensor \<Rightarrow> index list \<Rightarrow> error + tensor" where
  "getitem t items =
     bindE (resolve items (shape t))
       (\<lambda>sels. Inr (mk (sel_shape sels) (\<lambda>idx. elems t (sel_src sels idx))))"

text \<open>
  Indexing by an integer tensor, as \<open>event_permute\<close> does it: \<open>t[..., perm]\<close> replaces
  the last dimension by the dimensions of \<open>perm\<close>, \<open>t[..., perm, :]\<close> the one before
  the last. Entries of \<open>perm\<close> count from the end when negative; an entry out of range
  is an IndexError.
\<close>

record itensor =
  ishape :: "nat list"
  ielems :: "nat list \<Rightarrow> int"

fun all_indices :: "nat list \<Rightarrow> nat list list" where
  "all_indices [] = [[]]"
| "all_indices (d # ds) = concat (map (\<lambda>i. map ((#) i) (all_indices ds)) [0..<d])"

definition wrap_index :: "int \<Rightarrow> nat \<Rightarrow> int" where
  "wrap_index i d = (if i < 0 then i + int d else i)"

definition perm_in_range :: "itensor \<Rightarrow> nat \<Rightarrow> bool" where
  "perm_in_range perm d \<longleftrightarrow>
     list_all (\<lambda>j. 0 \<le> wrap_index (ielems perm j) d \<and> wrap_index (ielems perm j) d < int d)
       (all_indices (ishape perm))"

definition index_last :: "tensor \<Rightarrow> itensor \<Rightarrow> error + tensor" where
  "index_last t perm =
     (let s = shape t; k = length s in
      if k < 1 then Inl IndexError
      else if \<not> perm_in_range perm (last s) then Inl IndexError
      else Inr (mk (butlast s @ ishape perm)
             (\<lambda>idx. elems t (take (k - 1) idx @
                        [nat (wrap_index (ielems perm (drop (k - 1) idx)) (last s))]))))"

definition index_penult :: "tensor \<Rightarrow> itensor \<Rightarrow> error + tensor" where
  "index_penult t perm =
     (let s = shape t; k = length s in
      if k < 2 then Inl IndexError
      else if \<not> perm_in_range perm (s ! (k - 2)) then Inl IndexError
      else Inr (mk (take (k - 2) s @ ishape perm @ [last s])
             (\<lambda>idx. elems t (take (k - 2) idx @
                        [nat (wrap_index (ielems perm (butlast (drop (k - 2) idx))) (s ! (k - 2))),
                         last idx]))))"

subsection \<open>Padding, concatenation, reshaping\<close>

text \<open>
  \<open>torch.nn.functional.pad(t, pads)\<close> with zeros: \<open>pads\<close> lists (left, right) for the
  last dimension, then for the one before, and so on; a negative amount crops, first on
  the left and then on the right, and cropping more than the dimension holds is an error.
  Both functions below work on the reversed shape and the reversed index; \<open>pad_src_r\<close> is
  \<open>None\<close> at a position that holds padding.
\<close>

fun pad_shape_r :: "nat list \<Rightarrow> int list \<Rightarrow> nat list option" where
  "pad_shape_r ds [] = Some ds"
| "pad_shape_r (d # ds) (l # r # ps) =
     (if (l < 0 \<and> int d + l < 0) \<or> (r < 0 \<and> int d + min l 0 + r < 0) then None
      else map_option ((#) (nat (int d + l + r))) (pad_shape_r ds ps))"
| "pad_shape_r _ _ = None"

fun pad_src_r :: "nat list \<Rightarrow> int list \<Rightarrow> nat list \<Rightarrow> nat list option" where
  "pad_src_r (d # ds) (l # r # ps) (i # idx) =
     (if l \<le> int i \<and> int i - l < int d
      then map_option ((#) (nat (int i - l))) (pad_src_r ds ps idx)
      else None)"
| "pad_src_r ds ps idx = Some idx"

definition pad :: "tensor \<Rightarrow> int list \<Rightarrow> error + tensor" where
  "pad t pads =
     (case pad_shape_r (rev (shape t)) pads of
        None \<Rightarrow> Inl RuntimeError
      | Some r \<Rightarrow>
          Inr (mk (rev r)
            (\<lambda>idx. case pad_src_r (rev (shape t)) pads (rev idx) of
                     None \<Rightarrow> 0
                   | Some src \<Rightarrow> elems t (rev src))))"

text \<open>
  \<open>torch.cat(ts, dim)\<close>: no tensor is zero-dimensional; the tensors of shape \<open>(0,)\<close> are
  skipped (the library keeps this from the time when they were its only empty tensors);
  the others have the same number of dimensions and the same sizes but along the
  dimension \<open>dim\<close>, where the sizes add up. A negative \<open>dim\<close> counts from the end of the
  first tensor that is not skipped. When every tensor is skipped the result has shape
  \<open>(0,)\<close>.
\<close>

fun cat_elem :: "tensor list \<Rightarrow> nat \<Rightarrow> nat list \<Rightarrow> real" where
  "cat_elem [] d idx = 0"
| "cat_elem (u # us) d idx =
     (if idx ! d < shape u ! d then elems u idx
      else cat_elem us d (idx[d := idx ! d - shape u ! d]))"

definition torch_cat :: "tensor list \<Rightarrow> int \<Rightarrow> error + tensor" where
  "torch_cat ts axis =
     (if ts = [] \<or> list_ex (\<lambda>u. ndim u = 0) ts then Inl RuntimeError
      else case filter (\<lambda>u. shape u \<noteq> [0]) ts of
        [] \<Rightarrow> Inr (mk [0] (\<lambda>_. 0))
      | t # us \<Rightarrow>
          let k = ndim t; d = wrap_index axis k in
          if d < 0 \<or> int k \<le> d then Inl IndexError
          else if \<not> list_all (\<lambda>u. ndim u = k \<and> (shape u)[nat d := 0] = (shape t)[nat d := 0]) us
          then Inl RuntimeError
          else Inr (mk ((shape t)[nat d := sum_list (map (\<lambda>u. shape u ! nat d) (t # us))])
                 (cat_elem (t # us) (nat d))))"

text \<open>
  \<open>t.reshape(sizes)\<close>: the entries in row-major order under a new shape with as many
  entries; one size may be \<open>-1\<close> and is then inferred.
\<close>

fun ravel :: "nat list \<Rightarrow> nat list \<Rightarrow> nat" where
  "ravel (d # ds) (i # idx) = i * prod_list ds + ravel ds idx"
| "ravel _ _ = 0"

fun unravel :: "nat list \<Rightarrow> nat \<Rightarrow> nat list" where
  "unravel [] k = []"
| "unravel (d # ds) k = (k div prod_list ds) # unravel ds (k mod prod_list ds)"

definition reshape_shape :: "nat \<Rightarrow> int list \<Rightarrow> nat list option" where
  "reshape_shape numel sizes =
     (if \<not> list_all (\<lambda>z. - 1 \<le> z) sizes then None
      else if count_list sizes (- 1) = 0
      then (if prod_list (map nat sizes) = numel then Some (map nat sizes) else None)
      else if count_list sizes (- 1) = 1
      then (let p = prod_list (map nat (filter (\<lambda>z. z \<noteq> - 1) sizes)) in
            if p = 0 \<or> numel mod p \<noteq> 0 then None
            else Some (map (\<lambda>z. if z = - 1 then numel div p else nat z) sizes))
      else None)"

definition reshape :: "tensor \<Rightarrow> int list \<Rightarrow> error + tensor" where
  "reshape t sizes =
     (case reshape_shape (prod_list (shape t)) sizes of
        None \<Rightarrow> Inl RuntimeError
      | Some shp \<Rightarrow> Inr (mk shp (\<lambda>idx. elems t (unravel (shape t) (ravel shp idx)))))"

subsection \<open>Cholesky factorisation and triangular solve\<close>

text \<open>
  \<open>chol A\<close> is the lower-triangular Cholesky factor of the matrix \<open>A\<close>, entry by entry;
  it reads the lower triangle of \<open>A\<close> only. \<open>chol_pivot A i\<close> is the number whose square
  root is the \<open>i\<close>-th diagonal entry: the factorisation fails when a pivot is not
  positive. \<open>fwd L b\<close> solves \<open>L x = b\<close> for lower-triangular \<open>L\<close> by forward
  substitution.
\<close>

function chol :: "(nat \<Rightarrow> nat \<Rightarrow> real) \<Rightarrow> nat \<Rightarrow> nat \<Rightarrow> real" where
  "chol A i j =
     (if j < i then (A i j - (\<Sum>k\<leftarrow>[0..<j]. chol A i k * chol A j k)) / chol A j j
      else if i = j then sqrt (A i i - (\<Sum>k\<leftarrow>[0..<i]. (chol A i k)\<^sup>2))
      else 0)"
  by pat_completeness auto
termination
  by (relation "inv_image (less_than <*lex*> less_than) (\<lambda>(A, i, j). (i, j))") auto

definition chol_pivot :: "(nat \<Rightarrow> nat \<Rightarrow> real) \<Rightarrow> nat \<Rightarrow> real" where
  "chol_pivot A i = A i i - (\<Sum>k\<leftarrow>[0..<i]. (chol A i k)\<^sup>2)"

function fwd :: "(nat \<Rightarrow> nat \<Rightarrow> real) \<Rightarrow> (nat \<Rightarrow> real) \<Rightarrow> nat \<Rightarrow> real" where
  "fwd L b i = (b i - (\<Sum>k\<leftarrow>[0..<i]. L i k * fwd L b k)) / L i i"
  by pat_completeness auto
termination
  by (relation "measure (\<lambda>(L, b, i). i)") auto

declare chol.simps [simp del] fwd.simps [simp del]

definition matrix_at :: "tensor \<Rightarrow> nat list \<Rightarrow> nat \<Rightarrow> nat \<Rightarrow> real" where
  "matrix_at t b i j = elems t (b @ [i, j])"

text \<open>
  \<open>t.cholesky()\<close> factors every matrix of the batch and is a RuntimeError when the
  last two dimensions are not square or some matrix has a pivot that is not positive.
\<close>

definition factorable :: "tensor \<Rightarrow> bool" where
  "factorable t \<longleftrightarrow>
     list_all (\<lambda>b. list_all (\<lambda>i. 0 < chol_pivot (matrix_at t b) i) [0..<last (shape t)])
       (all_indices (shape_upto 2 (shape t)))"

definition cholesky :: "tensor \<Rightarrow> error + tensor" where
  "cholesky t =
     (let s = shape t; k = length s in
      if k < 2 \<or> s ! (k - 2) \<noteq> s ! (k - 1) then Inl RuntimeError
      else if \<not> factorable t then Inl RuntimeError
      else Inr (mk s (\<lambda>idx. chol (matrix_at t (take (k - 2) idx)) (idx ! (k - 2)) (idx ! (k - 1)))))"

text \<open>
  \<open>b.triangular_solve(A, upper=False).solution\<close>: the solution \<open>X\<close> of \<open>A X = b\<close> for
  every matrix of the broadcast batch, by forward substitution on the lower triangle of
  \<open>A\<close>. (A zero on the diagonal of \<open>A\<close> is not an error in the library; the quotient
  is then whatever division by zero gives.)
\<close>

definition triangular_solve :: "tensor \<Rightarrow> tensor \<Rightarrow> error + tensor" where
  "triangular_solve b A =
     (let sb = shape b; sa = shape A in
      if length sb < 2 \<or> length sa < 2 then Inl RuntimeError
      else
        let n = last sa; bb = shape_upto 2 sb; ba = shape_upto 2 sa in
        if sa ! (length sa - 2) \<noteq> n \<or> sb ! (length sb - 2) \<noteq> n then Inl RuntimeError
        else case bshape bb ba of
          None \<Rightarrow> Inl RuntimeError
        | Some bs \<Rightarrow>
            Inr (mk (bs @ [n, last sb])
              (\<lambda>idx. let bi = take (length bs) idx;
                         i = idx ! length bs; c = idx ! Suc (length bs)
                     in fwd (matrix_at A (bidx ba bi)) (\<lambda>r. elems b (bidx bb bi @ [r, c])) i)))"

section \<open>Gamma\<close>

record Gamma =
  gamma_log_normalizer :: tensor
  gamma_alpha :: tensor
  gamma_beta :: tensor

text \<open>\<open>Gamma.log_density(s)\<close>:
  \<open>self.log_normalizer + (self.alpha - 1) * s.log() - self.beta * s\<close>.\<close>

definition Gamma_log_density :: "Gamma \<Rightarrow> tensor \<Rightarrow> error + tensor" where
  "Gamma_log_density g s =
     bindE (tmul (ssub (gamma_alpha g) 1) (tlog s)) (\<lambda>t1.
     bindE (tadd (gamma_log_normalizer g) t1) (\<lambda>t2.
     bindE (tmul (gamma_beta g) s) (\<lambda>t3.
     tsub t2 t3)))"

section \<open>GaussianGamma\<close>

record GaussianGamma =
  log_normalizer :: tensor
  info_vec :: tensor
  precision :: tensor
  alpha :: tensor
  beta :: tensor

text \<open>
  The constructor, applied to the list of its positional arguments: it takes exactly
  five, so a call with another number of arguments is a TypeError; its three
  assertions are checked in the order of the source.
\<close>

fun GaussianGamma_init :: "tensor list \<Rightarrow> error + GaussianGamma" where
  "GaussianGamma_init [ln_arg, iv, P, a, b] =
     (if \<not> 1 \<le> ndim iv then Inl AssertionError
      else if \<not> 2 \<le> ndim P then Inl AssertionError
      else if shape_from 2 (shape P) \<noteq> shape_from 1 (shape iv) @ shape_from 1 (shape iv)
      then Inl AssertionError
      else Inr \<lparr>log_normalizer = ln_arg, info_vec = iv, precision = P, alpha = a, beta = b\<rparr>)"
| "GaussianGamma_init _ = Inl TypeError"

text \<open>\<open>dim()\<close> is \<open>self.info_vec.size(-1)\<close>; \<open>batch_shape\<close> is the broadcast of the batch
  parts of the five fields.\<close>

definition dim_of :: "GaussianGamma \<Rightarrow> error + nat" where
  "dim_of g = size_last (info_vec g)"

definition field_batch_shapes :: "GaussianGamma \<Rightarrow> nat list list" where
  "field_batch_shapes g =
     [shape (log_normalizer g), shape_upto 1 (shape (info_vec g)),
      shape_upto 2 (shape (precision g)), shape (alpha g), shape (beta g)]"

definition batch_shape :: "GaussianGamma \<Rightarrow> error + nat list" where
  "batch_shape g = broadcast_shape (field_batch_shapes g)"

subsection \<open>Structural operations\<close>

definition expand_gg :: "GaussianGamma \<Rightarrow> int list \<Rightarrow> error + GaussianGamma" where
  "expand_gg g bs =
     bindE (dim_of g) (\<lambda>n.
     bindE (expand (log_normalizer g) bs) (\<lambda>ln'.
     bindE (expand (info_vec g) (bs @ [int n])) (\<lambda>iv'.
     bindE (expand (precision g) (bs @ [int n, int n])) (\<lambda>P'.
     bindE (expand (alpha g) bs) (\<lambda>a'.
     bindE (expand (beta g) bs) (\<lambda>b'.
     GaussianGamma_init [ln', iv', P', a', b']))))))"

definition reshape_gg :: "GaussianGamma \<Rightarrow> int list \<Rightarrow> error + GaussianGamma" where
  "reshape_gg g bs =
     bindE (dim_of g) (\<lambda>n.
     bindE (reshape (log_normalizer g) bs) (\<lambda>ln'.
     bindE (reshape (info_vec g) (bs @ [int n])) (\<lambda>iv'.
     bindE (reshape (precision g) (bs @ [int n, int n])) (\<lambda>P'.
     bindE (reshape (alpha g) bs) (\<lambda>a'.
     bindE (reshape (beta g) bs) (\<lambda>b'.
     GaussianGamma_init [ln', iv', P', a', b']))))))"

text \<open>\<open>__getitem__(index)\<close>; \<open>index\<close> is a tuple, here a list of index entries.\<close>

definition getitem_gg :: "GaussianGamma \<Rightarrow> index list \<Rightarrow> error + GaussianGamma" where
  "getitem_gg g ix =
     bindE (getitem (log_normalizer g) ix) (\<lambda>ln'.
     bindE (getitem (info_vec g) (ix @ [Slice None None None])) (\<lambda>iv'.
     bindE (getitem (precision g) (ix @ [Slice None None None, Slice None None None])) (\<lambda>P'.
     bindE (getitem (alpha g) ix) (\<lambda>a'.
     bindE (getitem (beta g) ix) (\<lambda>b'.
     GaussianGamma_init [ln', iv', P', a', b'])))))"

text \<open>\<open>GaussianGamma.cat(parts, dim)\<close>: a negative \<open>dim\<close> counts from the end of the
  batch shape of the first part; every field is concatenated along that same axis.\<close>

definition cat_axis :: "GaussianGamma list \<Rightarrow> int \<Rightarrow> error + int" where
  "cat_axis parts axis =
     (if axis < 0
      then (case parts of
              [] \<Rightarrow> Inl IndexError
            | p # _ \<Rightarrow> bindE (batch_shape p) (\<lambda>bs. Inr (axis + int (length bs))))
      else Inr axis)"

definition cat :: "GaussianGamma list \<Rightarrow> int \<Rightarrow> error + GaussianGamma" where
  "cat parts axis =
     bindE (cat_axis parts axis) (\<lambda>d.
     bindE (torch_cat (map log_normalizer parts) d) (\<lambda>ln'.
     bindE (torch_cat (map info_vec parts) d) (\<lambda>iv'.
     bindE (torch_cat (map precision parts) d) (\<lambda>P'.
     bindE (torch_cat (map alpha parts) d) (\<lambda>a'.
     bindE (torch_cat (map beta parts) d) (\<lambda>b'.
     GaussianGamma_init [ln', iv', P', a', b']))))))"

definition event_pad :: "GaussianGamma \<Rightarrow> int \<Rightarrow> int \<Rightarrow> error + GaussianGamma" where
  "event_pad g left right =
     bindE (pad (info_vec g) [left, right]) (\<lambda>iv'.
     bindE (pad (precision g) [left, right, left, right]) (\<lambda>P'.
     GaussianGamma_init [log_normalizer g, iv', P', alpha g, beta g]))"

definition event_permute :: "GaussianGamma \<Rightarrow> itensor \<Rightarrow> error + GaussianGamma" where
  "event_permute g perm =
     bindE (dim_of g) (\<lambda>n.
     if ishape perm \<noteq> [n] then Inl AssertionError
     else
       bindE (index_last (info_vec g) perm) (\<lambda>iv'.
       bindE (index_last (precision g) perm) (\<lambda>P1.
       bindE (index_penult P1 perm) (\<lambda>P'.
       GaussianGamma_init [log_normalizer g, iv', P', alpha g, beta g]))))"

text \<open>\<open>__add__\<close>: the other operand is a GaussianGamma by its type here.\<close>

definition add :: "GaussianGamma \<Rightarrow> GaussianGamma \<Rightarrow> error + GaussianGamma" where
  "add g other =
     bindE (dim_of g) (\<lambda>n.
     bindE (dim_of other) (\<lambda>m.
     if n \<noteq> m then Inl AssertionError
     else
       bindE (tadd (log_normalizer g) (log_normalizer other)) (\<lambda>ln'.
       bindE (tadd (info_vec g) (info_vec other)) (\<lambda>iv'.
       bindE (tadd (precision g) (precision other)) (\<lambda>P'.
       bindE (tadd (alpha g) (alpha other)) (\<lambda>a'.
       bindE (tadd (beta g) (beta other)) (\<lambda>b'.
       GaussianGamma_init [ln', iv', P', a', b'])))))))"

subsection \<open>Density evaluation and conditioning\<close>

definition log_density :: "GaussianGamma \<Rightarrow> tensor \<Rightarrow> tensor \<Rightarrow> error + tensor" where
  "log_density g v s =
     bindE (size_last v) (\<lambda>k.
     if k = 0 then
       bindE (batch_shape g) (\<lambda>bg.
       bindE (broadcast_shape [shape_upto 1 (shape v), bg]) (\<lambda>bs.
       bindE (tmul (alpha g) (tlog s)) (\<lambda>t1.
       bindE (tmul (beta g) s) (\<lambda>t2.
       bindE (tsub t1 t2) (\<lambda>t3.
       bindE (expand (log_normalizer g) (map int bs)) (\<lambda>ln'.
       tadd t3 ln'))))))
     else
       bindE (matmul (precision g) (unsqueeze_last v)) (\<lambda>pv.
       bindE (tadd (smul (- 0.5) (squeeze_last pv)) (info_vec g)) (\<lambda>r1.
       bindE (tmul v r1) (\<lambda>r2.
       bindE (tmul (alpha g) (tlog s)) (\<lambda>t1.
       bindE (tsub (sum_last r2) (beta g)) (\<lambda>t2.
       bindE (tmul t2 s) (\<lambda>t3.
       bindE (tadd t1 t3) (\<lambda>t4.
       tadd t4 (log_normalizer g)))))))))"

definition condition :: "GaussianGamma \<Rightarrow> tensor \<Rightarrow> error + GaussianGamma" where
  "condition g v =
     bindE (size_last v) (\<lambda>k.
     bindE (size_last (info_vec g)) (\<lambda>d.
     if \<not> k \<le> d then Inl AssertionError
     else
       bindE (dim_of g) (\<lambda>d'.
       let n = int d' - int k in
       bindE (getitem (info_vec g) [Ellipsis, Slice None (Some n) None]) (\<lambda>info_a.
       bindE (getitem (info_vec g) [Ellipsis, Slice (Some n) None None]) (\<lambda>info_b.
       bindE (getitem (precision g)
                [Ellipsis, Slice None (Some n) None, Slice None (Some n) None]) (\<lambda>P_aa.
       bindE (getitem (precision g)
                [Ellipsis, Slice None (Some n) None, Slice (Some n) None None]) (\<lambda>P_ab.
       bindE (getitem (precision g)
                [Ellipsis, Slice (Some n) None None, Slice (Some n) None None]) (\<lambda>P_bb.
       bindE (matmul P_ab (unsqueeze_last v)) (\<lambda>m1.
       bindE (tsub info_a (squeeze_last m1)) (\<lambda>iv'.
       bindE (matmul P_bb (unsqueeze_last v)) (\<lambda>m2.
       bindE (tmul (squeeze_last m2) v) (\<lambda>q.
       bindE (tsub (beta g) (smul 0.5 (sum_last q))) (\<lambda>b1.
       bindE (tmul v info_b) (\<lambda>l.
       bindE (tadd b1 (sum_last l)) (\<lambda>b'.
       GaussianGamma_init [log_normalizer g, iv', P_aa, alpha g, b'])))))))))))))))"

subsection \<open>Marginalisation and full integration\<close>

definition marginalize :: "GaussianGamma \<Rightarrow> int \<Rightarrow> int \<Rightarrow> error + GaussianGamma" where
  "marginalize g left right =
     (if left = 0 \<and> right = 0 then Inr g
      else if 0 < left \<and> 0 < right then Inl NotImplementedError
      else
        bindE (dim_of g) (\<lambda>n.
        let n_b = left + right;
            a = Slice (Some left) (Some (int n - right)) None;
            b = (if left \<noteq> 0 then Slice None (Some left) None
                 else Slice (Some (int n - right)) None None)
        in
        bindE (getitem (precision g) [Ellipsis, a, a]) (\<lambda>P_aa.
        bindE (getitem (precision g) [Ellipsis, b, a]) (\<lambda>P_ba.
        bindE (getitem (precision g) [Ellipsis, b, b]) (\<lambda>P_bb.
        bindE (cholesky P_bb) (\<lambda>P_b.
        bindE (triangular_solve P_ba P_b) (\<lambda>P_a.
        bindE (transpose_last P_a) (\<lambda>P_at.
        bindE (matmul P_at P_a) (\<lambda>m1.
        bindE (tsub P_aa m1) (\<lambda>P'.
        bindE (getitem (info_vec g) [Ellipsis, a]) (\<lambda>info_a.
        bindE (getitem (info_vec g) [Ellipsis, b]) (\<lambda>info_b.
        bindE (triangular_solve (unsqueeze_last info_b) P_b) (\<lambda>b_tmp.
        bindE (matmul P_at b_tmp) (\<lambda>m2.
        bindE (tsub info_a (squeeze_last m2)) (\<lambda>iv'.
        bindE (diagonal_last P_b) (\<lambda>dg.
        bindE (tsub (sadd (log_normalizer g) (0.5 * real_of_int n_b * ln (2 * pi)))
                 (sum_last (tlog dg))) (\<lambda>l1.
        bindE (tadd l1 (smul 0.5 (sum_last (tpow2 (squeeze_last b_tmp))))) (\<lambda>ln'.
        GaussianGamma_init [ln', iv', P']))))))))))))))))))"

definition event_logsumexp :: "GaussianGamma \<Rightarrow> error + Gamma" where
  "event_logsumexp g =
     bindE (dim_of g) (\<lambda>n.
     bindE (cholesky (precision g)) (\<lambda>chol_P.
     bindE (triangular_solve (unsqueeze_last (info_vec g)) chol_P) (\<lambda>sol.
     let chol_P_u = squeeze_last sol;
         u_P_u = sum_last (tpow2 chol_P_u);
         alpha' = sadd (ssub (alpha g) (0.5 * real n)) 1
     in
     bindE (tsub (beta g) (smul 0.5 u_P_u)) (\<lambda>beta'.
     bindE (diagonal_last chol_P) (\<lambda>dg.
     let log_normalizer_tmp = rsub (0.5 * real n * ln (2 * pi)) (sum_last (tlog dg)) in
     bindE (tadd (log_normalizer g) log_normalizer_tmp) (\<lambda>ln'.
     Inr \<lparr>gamma_log_normalizer = ln', gamma_alpha = alpha', gamma_beta = beta'\<rparr>))))))"

section \<open>Broadcasting as an order on shapes\<close>

text \<open>
  Notions used to state and prove the properties below. \<open>fits a c\<close>: a tensor of shape
  \<open>a\<close> can be broadcast to shape \<open>c\<close> (\<open>fits_r\<close> on the reversed shapes); the broadcast
  of two shapes is their least upper bound in this order. \<open>canonical t\<close>: the entries
  of \<open>t\<close> outside its shape are 0, as for every tensor built by \<open>mk\<close>.
  \<open>bread t k idx ev\<close> reads \<open>t\<close>, whose last \<open>k\<close> dimensions are event dimensions, at
  the event index \<open>ev\<close> of the batch element that \<open>idx\<close> is broadcast to.
  \<open>rep T Ds E X \<phi>\<close>: the tensor \<open>X\<close> has event shape \<open>E\<close> and a batch shape that fits
  \<open>T\<close> and that every shape of \<open>Ds\<close> fits, and broadcast to batch shape \<open>T\<close> its
  entries are \<open>\<phi>\<close>.
\<close>

fun fits_r :: "nat list \<Rightarrow> nat list \<Rightarrow> bool" where
  "fits_r [] ys = True"
| "fits_r (x # xs) [] = False"
| "fits_r (x # xs) (y # ys) = ((x = y \<or> x = 1) \<and> fits_r xs ys)"

definition fits :: "nat list \<Rightarrow> nat list \<Rightarrow> bool" where
  "fits a c = fits_r (rev a) (rev c)"

definition ridx :: "nat list \<Rightarrow> nat list \<Rightarrow> nat list" where
  "ridx xs js = map2 (\<lambda>d i. if d = 1 then 0 else i) xs js"

definition canonical :: "tensor \<Rightarrow> bool" where
  "canonical t \<longleftrightarrow> (\<forall>idx. \<not> valid_index (shape t) idx \<longrightarrow> elems t idx = 0)"

definition rep ::
  "nat list \<Rightarrow> nat list list \<Rightarrow> nat list \<Rightarrow> tensor \<Rightarrow> (nat list \<Rightarrow> nat list \<Rightarrow> real) \<Rightarrow> bool" where
  "rep T Ds E X \<phi> \<longleftrightarrow>
     (\<exists>B. shape X = B @ E \<and> fits B T \<and> (\<forall>d \<in> set Ds. fits d B) \<and>
        (\<forall>idx ev. valid_index T idx \<longrightarrow> valid_index E ev \<longrightarrow>
           elems X (bidx B idx @ ev) = \<phi> idx ev))"

definition bread :: "tensor \<Rightarrow> nat \<Rightarrow> nat list \<Rightarrow> nat list \<Rightarrow> real" where
  "bread t k idx ev = elems t (bidx (shape_upto k (shape t)) idx @ ev)"

definition gg_density_at :: "GaussianGamma \<Rightarrow> tensor \<Rightarrow> tensor \<Rightarrow> nat list \<Rightarrow> real" where
  "gg_density_at g v s idx =
     bread (alpha g) 0 idx [] * ln (bread s 0 idx [])
     + ((\<Sum>i\<leftarrow>[0..<last (shape v)]. bread v 1 idx [i] *
           (- 0.5 * (\<Sum>l\<leftarrow>[0..<last (shape v)]. bread (precision g) 2 idx [i, l] * bread v 1 idx [l])
            + bread (info_vec g) 1 idx [i]))
        - bread (beta g) 0 idx []) * bread s 0 idx []
     + bread (log_normalizer g) 0 idx []"

text \<open>
  What \<open>event_logsumexp\<close> needs and promises, in terms of the entries.
  \<open>symmetric_last2 t\<close>: every matrix of the batch \<open>t\<close> is symmetric.
  \<open>lower_factor_of L P\<close>: \<open>L\<close> has the shape of \<open>P\<close>, and every matrix of \<open>L\<close> is lower
  triangular with a positive diagonal and its product with its own transpose is the
  matrix of \<open>P\<close>. \<open>solves_lower L w b\<close>: the batch shape of \<open>w\<close> is the broadcast of
  those of \<open>L\<close> and \<open>b\<close>, and in every batch element \<open>L w = b\<close>.
\<close>

definition symmetric_last2 :: "tensor \<Rightarrow> bool" where
  "symmetric_last2 t \<longleftrightarrow>
     list_all (\<lambda>b. list_all (\<lambda>i. list_all (\<lambda>j. matrix_at t b i j = matrix_at t b j i)
                  [0..<last (shape t)]) [0..<last (shape t)])
       (all_indices (shape_upto 2 (shape t)))"

definition lower_factor_of :: "tensor \<Rightarrow> tensor \<Rightarrow> bool" where
  "lower_factor_of L P \<longleftrightarrow>
     shape L = shape P \<and>
     (\<forall>b i j. valid_index (shape_upto 2 (shape P)) b \<and> i < last (shape P) \<and> j < last (shape P) \<longrightarrow>
        (i < j \<longrightarrow> matrix_at L b i j = 0) \<and> 0 < matrix_at L b i i \<and>
        (\<Sum>k\<leftarrow>[0..<last (shape P)]. matrix_at L b i k * matrix_at L b j k) = matrix_at P b i j)"

definition solves_lower :: "tensor \<Rightarrow> tensor \<Rightarrow> tensor \<Rightarrow> bool" where
  "solves_lower L w b \<longleftrightarrow>
     bshape (shape_upto 1 (shape b)) (shape_upto 2 (shape L)) = Some (shape_upto 1 (shape w)) \<and>
     shape w = shape_upto 1 (shape w) @ [last (shape b)] \<and>
     (\<forall>idx i. valid_index (shape_upto 1 (shape w)) idx \<and> i < last (shape b) \<longrightarrow>
        (\<Sum>k\<leftarrow>[0..<last (shape b)]. bread L 2 idx [i, k] * bread w 1 idx [k])
          = bread b 1 idx [i])"

text \<open>The entries that the Cholesky factor of \<open>P\<close> and the solution of the triangular
  system against \<open>iv\<close> have in the batch element that \<open>idx\<close> is broadcast to.\<close>

definition chol_at :: "tensor \<Rightarrow> nat list \<Rightarrow> nat list \<Rightarrow> nat list \<Rightarrow> real" where
  "chol_at P BP idx ev = chol (matrix_at P (bidx BP idx)) (ev ! 0) (ev ! 1)"

definition sol_at :: "tensor \<Rightarrow> nat list \<Rightarrow> tensor \<Rightarrow> nat list \<Rightarrow> nat list \<Rightarrow> real" where
  "sol_at P BP iv idx ev =
     fwd (\<lambda>i k. chol_at P BP idx [i, k]) (\<lambda>r. bread iv 1 idx [r]) (ev ! 0)"

section \<open>The shape invariant and instances used as witnesses\<close>

text \<open>The three assertions of the constructor, as a predicate on an instance.\<close>

definition gg_inv :: "GaussianGamma \<Rightarrow> bool" where
  "gg_inv g \<longleftrightarrow>
     1 \<le> ndim (info_vec g) \<and> 2 \<le> ndim (precision g) \<and>
     shape_from 2 (shape (precision g)) =
       shape_from 1 (shape (info_vec g)) @ shape_from 1 (shape (info_vec g))"

text \<open>The instance of the specification's concrete scenario: \<open>n = 1\<close>,
  \<open>precision = [[2.0]]\<close>, \<open>info_vec = [0.0]\<close>, \<open>alpha = 1.5\<close>, \<open>beta = 0.5\<close>,
  \<open>log_normalizer = 0.0\<close>, no batch dimensions.\<close>

definition gg_scenario :: GaussianGamma where
  "gg_scenario =
     \<lparr>log_normalizer = scalar 0, info_vec = vec [0], precision = mat 1 [[2]],
      alpha = scalar (3 / 2), beta = scalar (1 / 2)\<rparr>"

text \<open>An instance of event dimension 2 (identity precision), and vectors used as
  arguments.\<close>

definition gg_dim2 :: GaussianGamma where
  "gg_dim2 =
     \<lparr>log_normalizer = scalar 0, info_vec = vec [0, 0], precision = mat 2 [[1, 0], [0, 1]],
      alpha = scalar 1, beta = scalar 1\<rparr>"

definition perm_swap :: itensor where
  "perm_swap = \<lparr>ishape = [2], ielems = (\<lambda>idx. if idx = [0] then 1 else 0)\<rparr>"

text \<open>An instance of event dimension 0: \<open>info_vec\<close> of shape \<open>(0,)\<close>, \<open>precision\<close> of
  shape \<open>(0, 0)\<close>, \<open>alpha = 1\<close>, \<open>beta = 1\<close>, \<open>log_normalizer = 0\<close>; and the Gamma built
  from the same three scalars.\<close>

definition gg_empty :: GaussianGamma where
  "gg_empty =
     \<lparr>log_normalizer = scalar 0, info_vec = vec [], precision = mat 0 [],
      alpha = scalar 1, beta = scalar 1\<rparr>"

definition gamma_same_scalars :: "GaussianGamma \<Rightarrow> Gamma" where
  "gamma_same_scalars g =
     \<lparr>gamma_log_normalizer = log_normalizer g, gamma_alpha = alpha g, gamma_beta = beta g\<rparr>"





section \<open>Basic facts\<close>

lemma bindE_simps [simp]: "bindE (Inl e) f = Inl e" "bindE (Inr x) f = f x"
  by (simp_all add: bindE_def)


lemma shape_mk [simp]: "shape (mk s f) = s"
  by (simp add: mk_def)

lemma elems_mk: "elems (mk s f) idx = (if valid_index s idx then f idx else 0)"
  by (simp add: mk_def)

lemma shape_from_2: "2 \<le> length s \<Longrightarrow> shape_from 2 s = [s ! (length s - 2), last s]"
proof (cases s rule: rev_cases)
  case Nil
  assume "2 \<le> length s"
  with Nil show ?thesis by simp
next
  case (snoc ys y)
  assume a: "2 \<le> length s"
  show ?thesis
  proof (cases ys rule: rev_cases)
    case Nil
    with snoc a show ?thesis by simp
  next
    case (snoc zs z)
    with \<open>s = ys @ [y]\<close> show ?thesis by (simp add: shape_from_def nth_append)
  qed
qed

lemma shape_from_1: "s \<noteq> [] \<Longrightarrow> shape_from (Suc 0) s = [last s]"
  by (cases s rule: rev_cases) (simp_all add: shape_from_def)

section \<open>Facts about shapes, broadcasting and the tensor operations\<close>

lemma valid_index_Nil [simp]: "valid_index [] idx \<longleftrightarrow> idx = []"
  by (simp add: valid_index_def)

lemma valid_index_Cons [simp]:
  "valid_index (d # ds) idx \<longleftrightarrow> (\<exists>i is. idx = i # is \<and> i < d \<and> valid_index ds is)"
  by (cases idx) (auto simp: valid_index_def)

lemma valid_index_length: "valid_index s idx \<Longrightarrow> length idx = length s"
  by (simp add: valid_index_def list_all2_lengthD)

lemma valid_index_append:
  "length i1 = length s1 \<Longrightarrow>
   valid_index (s1 @ s2) (i1 @ i2) \<longleftrightarrow> valid_index s1 i1 \<and> valid_index s2 i2"
  by (simp add: valid_index_def list_all2_append)

lemma valid_index_rev: "valid_index (rev s) (rev idx) \<longleftrightarrow> valid_index s idx"
  by (simp add: valid_index_def)

lemma fits_r_refl [simp]: "fits_r xs xs"
  by (induction xs) auto

lemma fits_r_length: "fits_r xs ys \<Longrightarrow> length xs \<le> length ys"
  by (induction xs ys rule: fits_r.induct) auto

lemma fits_r_trans: "fits_r xs ys \<Longrightarrow> fits_r ys zs \<Longrightarrow> fits_r xs zs"
proof (induction xs ys arbitrary: zs rule: fits_r.induct)
  case (3 x xs y ys)
  then show ?case by (cases zs) auto
qed auto

lemma fits_r_antisym: "fits_r xs ys \<Longrightarrow> fits_r ys xs \<Longrightarrow> xs = ys"
proof (induction xs arbitrary: ys)
  case Nil
  then show ?case by (cases ys) auto
next
  case (Cons x xs)
  then show ?case by (cases ys) auto
qed

lemma bcr_upper: "bcr xs ys = Some zs \<Longrightarrow> fits_r xs zs \<and> fits_r ys zs"
  by (induction xs ys arbitrary: zs rule: bcr.induct) (auto split: if_splits)

lemma bcr_least:
  "fits_r xs ds \<Longrightarrow> fits_r ys ds \<Longrightarrow> \<exists>zs. bcr xs ys = Some zs \<and> fits_r zs ds"
proof (induction xs ys arbitrary: ds rule: bcr.induct)
  case (3 x xs y ys)
  from "3.prems" obtain d ds' where ds: "ds = d # ds'"
    by (cases ds) auto
  with "3.prems" have f: "fits_r xs ds'" "fits_r ys ds'" and xy: "x = d \<or> x = 1" "y = d \<or> y = 1"
    by auto
  from xy have c: "x = y \<or> x = 1 \<or> y = 1" by auto
  from "3.IH" [OF c f] obtain zs where zs: "bcr xs ys = Some zs" "fits_r zs ds'"
    by blast
  with xy c ds show ?case by auto
qed auto

lemma ridx_valid:
  "fits_r xs zs \<Longrightarrow> list_all2 (<) js zs \<Longrightarrow> list_all2 (<) (ridx xs js) xs"
proof (induction xs zs arbitrary: js rule: fits_r.induct)
  case (3 x xs y ys)
  then show ?case by (cases js) (auto simp: ridx_def)
qed (auto simp: ridx_def)

lemma ridx_comp:
  "fits_r xs zs \<Longrightarrow> length zs \<le> length js \<Longrightarrow> ridx xs (ridx zs js) = ridx xs js"
proof (induction xs zs arbitrary: js rule: fits_r.induct)
  case (3 x xs y ys)
  then show ?case by (cases js) (auto simp: ridx_def)
qed (auto simp: ridx_def)

lemma ridx_id: "list_all2 (<) js xs \<Longrightarrow> ridx xs js = js"
proof (induction xs arbitrary: js)
  case (Cons x xs)
  then show ?case by (cases js) (auto simp: ridx_def)
qed (auto simp: ridx_def)

lemma zip_take_right: "zip xs (take (length xs) ys) = zip xs ys"
proof (induction xs arbitrary: ys)
  case (Cons x xs)
  then show ?case by (cases ys) auto
qed simp

lemma rev_bidx: "length shp \<le> length idx \<Longrightarrow> rev (bidx shp idx) = ridx (rev shp) (rev idx)"
proof -
  assume le: "length shp \<le> length idx"
  have "rev (zip shp (drop (length idx - length shp) idx))
      = zip (rev shp) (rev (drop (length idx - length shp) idx))"
    using le by (simp add: zip_rev)
  also have "rev (drop (length idx - length shp) idx) = take (length shp) (rev idx)"
    using le by (simp add: rev_drop)
  also have "zip (rev shp) (take (length shp) (rev idx)) = zip (rev shp) (rev idx)"
    using zip_take_right [of "rev shp" "rev idx"] by simp
  finally show ?thesis by (simp add: bidx_def ridx_def rev_map)
qed

lemma bidx_eq: "length shp \<le> length idx \<Longrightarrow> bidx shp idx = rev (ridx (rev shp) (rev idx))"
  by (metis rev_bidx rev_rev_ident)

lemma length_bidx: "length shp \<le> length idx \<Longrightarrow> length (bidx shp idx) = length shp"
  by (simp add: bidx_def)

lemma fits_refl [simp]: "fits a a"
  by (simp add: fits_def)

lemma fits_length: "fits a c \<Longrightarrow> length a \<le> length c"
  using fits_r_length by (fastforce simp: fits_def)

lemma fits_trans: "fits a b \<Longrightarrow> fits b c \<Longrightarrow> fits a c"
  unfolding fits_def by (rule fits_r_trans)

lemma fits_antisym: "fits a b \<Longrightarrow> fits b a \<Longrightarrow> a = b"
  unfolding fits_def using fits_r_antisym by fastforce

lemma fits_Nil [simp]: "fits [] c"
  by (simp add: fits_def)

lemma bshape_upper: "bshape a b = Some c \<Longrightarrow> fits a c \<and> fits b c"
  unfolding bshape_def fits_def using bcr_upper by fastforce

lemma bshape_least: "fits a d \<Longrightarrow> fits b d \<Longrightarrow> \<exists>c. bshape a b = Some c \<and> fits c d"
  unfolding bshape_def fits_def using bcr_least by fastforce

lemma bidx_valid:
  assumes "fits a c" "valid_index c idx"
  shows "valid_index a (bidx a idx)"
proof -
  have len: "length a \<le> length idx"
    using assms fits_length valid_index_length by fastforce
  have "list_all2 (<) (ridx (rev a) (rev idx)) (rev a)"
    using assms by (intro ridx_valid [where zs = "rev c"]) (simp_all add: fits_def valid_index_def)
  then have "list_all2 (<) (rev (ridx (rev a) (rev idx))) a"
    by (simp add: list_all2_rev1)
  then show ?thesis
    using len by (simp add: bidx_eq valid_index_def)
qed

lemma bidx_comp:
  assumes "fits a c" "length c \<le> length idx"
  shows "bidx a (bidx c idx) = bidx a idx"
proof -
  have la: "length a \<le> length c" using assms fits_length by blast
  have "length a \<le> length (bidx c idx)"
    using la assms by (simp add: length_bidx)
  then have "bidx a (bidx c idx) = rev (ridx (rev a) (rev (bidx c idx)))"
    by (rule bidx_eq)
  also have "rev (bidx c idx) = ridx (rev c) (rev idx)"
    using assms by (simp add: rev_bidx)
  also have "ridx (rev a) (ridx (rev c) (rev idx)) = ridx (rev a) (rev idx)"
    using assms by (intro ridx_comp) (simp_all add: fits_def)
  finally show ?thesis using la assms by (simp add: bidx_eq)
qed

lemma bidx_id: "valid_index a idx \<Longrightarrow> bidx a idx = idx"
proof -
  assume v: "valid_index a idx"
  then have "length a \<le> length idx" by (simp add: valid_index_length)
  moreover have "ridx (rev a) (rev idx) = rev idx"
    using v by (intro ridx_id) (simp add: valid_index_def)
  ultimately show ?thesis by (simp add: bidx_eq)
qed

lemma bidx_append:
  assumes "length e = length ev" "length b \<le> length tb"
  shows "bidx (b @ e) (tb @ ev) = bidx b tb @ bidx e ev"
proof -
  have "drop (length (tb @ ev) - length (b @ e)) (tb @ ev) = drop (length tb - length b) tb @ ev"
    using assms by simp
  moreover have "length (drop (length tb - length b) tb) = length b"
    using assms by simp
  ultimately show ?thesis
    using assms by (simp add: bidx_def)
qed


lemma fits_snoc_snoc: "fits (a @ [x]) (c @ [y]) \<longleftrightarrow> (x = y \<or> x = 1) \<and> fits a c"
  by (simp add: fits_def)

lemma bshape_append: "bshape (a @ e) (b @ e) = map_option (\<lambda>c. c @ e) (bshape a b)"
proof (induction e rule: rev_induct)
  case Nil
  show ?case by (simp add: option.map_ident)
next
  case (snoc x e)
  then show ?case
    by (cases "bshape a b") (auto simp: bshape_def option.map_comp comp_def)
qed

lemma canonical_mk [simp]: "canonical (mk s f)"
  by (simp add: canonical_def mk_def)

lemma tensor_eqI:
  assumes "canonical a" "canonical b" "shape a = shape b"
    and "\<And>idx. valid_index (shape a) idx \<Longrightarrow> elems a idx = elems b idx"
  shows "a = b"
proof -
  have "elems a = elems b"
  proof
    fix idx
    show "elems a idx = elems b idx"
      using assms by (cases "valid_index (shape a) idx") (auto simp: canonical_def)
  qed
  with assms(3) show ?thesis by simp
qed

lemma valid_batch_event:
  assumes "fits B T" "valid_index T idx" "valid_index E ev"
  shows "valid_index (B @ E) (bidx B idx @ ev)"
proof -
  have "length B \<le> length idx"
    using assms fits_length valid_index_length by fastforce
  then have "length (bidx B idx) = length B" by (rule length_bidx)
  then show ?thesis
    using assms bidx_valid by (simp add: valid_index_append)
qed

lemma repI:
  assumes "shape X = B @ E" "fits B T" "\<And>d. d \<in> set Ds \<Longrightarrow> fits d B"
    and "\<And>idx ev. valid_index T idx \<Longrightarrow> valid_index E ev \<Longrightarrow> elems X (bidx B idx @ ev) = \<phi> idx ev"
  shows "rep T Ds E X \<phi>"
  unfolding rep_def using assms by blast

lemma rep_input:
  "shape X = B @ E \<Longrightarrow> fits B T \<Longrightarrow> rep T [B] E X (\<lambda>idx ev. elems X (bidx B idx @ ev))"
  by (rule repI [where B = B]) auto

lemma rep_cong:
  assumes "rep T Ds E X \<phi>"
    and "\<And>idx ev. valid_index T idx \<Longrightarrow> valid_index E ev \<Longrightarrow> \<phi> idx ev = \<psi> idx ev"
  shows "rep T Ds E X \<psi>"
proof -
  from assms(1) obtain B where B: "shape X = B @ E" "fits B T" "\<And>d. d \<in> set Ds \<Longrightarrow> fits d B"
    "\<And>idx ev. valid_index T idx \<Longrightarrow> valid_index E ev \<Longrightarrow> elems X (bidx B idx @ ev) = \<phi> idx ev"
    unfolding rep_def by blast
  show ?thesis
    by (rule repI [where B = B]) (use B assms(2) in auto)
qed

lemma rep_weaken:
  assumes "rep T Ds E X \<phi>" "set Ds' \<subseteq> set Ds"
  shows "rep T Ds' E X \<phi>"
proof -
  from assms(1) obtain B where B: "shape X = B @ E" "fits B T" "\<And>d. d \<in> set Ds \<Longrightarrow> fits d B"
    "\<And>idx ev. valid_index T idx \<Longrightarrow> valid_index E ev \<Longrightarrow> elems X (bidx B idx @ ev) = \<phi> idx ev"
    unfolding rep_def by blast
  show ?thesis
    by (rule repI [where B = B]) (use B assms(2) in auto)
qed

lemma rep_tmap:
  assumes "rep T Ds E X \<phi>"
  shows "rep T Ds E (tmap f X) (\<lambda>idx ev. f (\<phi> idx ev))"
proof -
  from assms obtain B where B: "shape X = B @ E" "fits B T" "\<And>d. d \<in> set Ds \<Longrightarrow> fits d B"
    "\<And>idx ev. valid_index T idx \<Longrightarrow> valid_index E ev \<Longrightarrow> elems X (bidx B idx @ ev) = \<phi> idx ev"
    unfolding rep_def by blast
  show ?thesis
  proof (rule repI [where B = B])
    show "shape (tmap f X) = B @ E" by (simp add: tmap_def B)
    show "fits B T" by fact
    show "\<And>d. d \<in> set Ds \<Longrightarrow> fits d B" by fact
    fix idx ev assume v: "valid_index T idx" "valid_index E ev"
    then have "valid_index (B @ E) (bidx B idx @ ev)"
      using B(2) by (intro valid_batch_event)
    then show "elems (tmap f X) (bidx B idx @ ev) = f (\<phi> idx ev)"
      using B v by (simp add: tmap_def elems_mk)
  qed
qed

lemma rep_tbin:
  assumes "rep T Da E a \<phi>a" "rep T Db E b \<phi>b"
  shows "\<exists>r. tbin f a b = Inr r \<and> canonical r \<and>
           rep T (Da @ Db) E r (\<lambda>idx ev. f (\<phi>a idx ev) (\<phi>b idx ev))"
proof -
  from assms(1) obtain Ba where Ba: "shape a = Ba @ E" "fits Ba T" "\<And>d. d \<in> set Da \<Longrightarrow> fits d Ba"
    "\<And>idx ev. valid_index T idx \<Longrightarrow> valid_index E ev \<Longrightarrow> elems a (bidx Ba idx @ ev) = \<phi>a idx ev"
    unfolding rep_def by blast
  from assms(2) obtain Bb where Bb: "shape b = Bb @ E" "fits Bb T" "\<And>d. d \<in> set Db \<Longrightarrow> fits d Bb"
    "\<And>idx ev. valid_index T idx \<Longrightarrow> valid_index E ev \<Longrightarrow> elems b (bidx Bb idx @ ev) = \<phi>b idx ev"
    unfolding rep_def by blast
  from bshape_least [OF Ba(2) Bb(2)] obtain Bc where Bc: "bshape Ba Bb = Some Bc" "fits Bc T"
    by blast
  from bshape_upper [OF Bc(1)] have up: "fits Ba Bc" "fits Bb Bc" by auto
  define r where "r = mk (Bc @ E)
    (\<lambda>idx. f (elems a (bidx (shape a) idx)) (elems b (bidx (shape b) idx)))"
  have res: "tbin f a b = Inr r"
    by (simp add: tbin_def Ba(1) Bb(1) bshape_append Bc(1) r_def)
  have "rep T (Da @ Db) E r (\<lambda>idx ev. f (\<phi>a idx ev) (\<phi>b idx ev))"
  proof (rule repI [where B = Bc])
    show "shape r = Bc @ E" by (simp add: r_def)
    show "fits Bc T" by fact
    show "\<And>d. d \<in> set (Da @ Db) \<Longrightarrow> fits d Bc"
      using Ba(3) Bb(3) up by (auto intro: fits_trans)
    fix idx ev assume v: "valid_index T idx" "valid_index E ev"
    have lc: "length Bc \<le> length idx"
      using Bc(2) v(1) fits_length valid_index_length by fastforce
    have lbc: "length (bidx Bc idx) = length Bc" using lc by (rule length_bidx)
    have le: "length E = length ev" using v(2) by (simp add: valid_index_length)
    have va: "valid_index (Bc @ E) (bidx Bc idx @ ev)"
      using Bc(2) v by (intro valid_batch_event)
    have ia: "bidx (Ba @ E) (bidx Bc idx @ ev) = bidx Ba idx @ ev"
      using le lbc up(1) lc fits_length [OF up(1)]
      by (simp add: bidx_append bidx_comp bidx_id [OF v(2)])
    have ib: "bidx (Bb @ E) (bidx Bc idx @ ev) = bidx Bb idx @ ev"
      using le lbc up(2) lc fits_length [OF up(2)]
      by (simp add: bidx_append bidx_comp bidx_id [OF v(2)])
    show "elems r (bidx Bc idx @ ev) = f (\<phi>a idx ev) (\<phi>b idx ev)"
      using va v by (simp add: r_def elems_mk Ba(1) Bb(1) ia ib Ba(4) Bb(4))
  qed
  moreover have "canonical r" by (simp add: r_def)
  ultimately show ?thesis using res by blast
qed

lemma rep_final:
  assumes "rep T Ds [] r \<phi>" and "\<And>U. (\<forall>d \<in> set Ds. fits d U) \<Longrightarrow> fits T U"
  shows "shape r = T \<and> (\<forall>idx. valid_index T idx \<longrightarrow> elems r idx = \<phi> idx [])"
proof -
  from assms(1) obtain B where B: "shape r = B @ []" "fits B T" "\<And>d. d \<in> set Ds \<Longrightarrow> fits d B"
    "\<And>idx ev. valid_index T idx \<Longrightarrow> valid_index [] ev \<Longrightarrow> elems r (bidx B idx @ ev) = \<phi> idx ev"
    unfolding rep_def by blast
  have "fits T B" using assms(2) B(3) by blast
  with B(2) have eq: "B = T" by (rule fits_antisym)
  have "elems r idx = \<phi> idx []" if "valid_index T idx" for idx
    using B(4) [OF that, of "[]"] that by (simp add: eq bidx_id)
  with B(1) eq show ?thesis by simp
qed

lemma valid_index_snoc_snoc [simp]:
  "valid_index (E @ [n]) (ev @ [i]) \<longleftrightarrow> i < n \<and> valid_index E ev"
proof -
  have "valid_index (E @ [n]) (ev @ [i]) \<longleftrightarrow> valid_index (rev (E @ [n])) (rev (ev @ [i]))"
    by (simp only: valid_index_rev)
  also have "\<dots> \<longleftrightarrow> i < n \<and> valid_index (rev E) (rev ev)"
    by simp
  finally show ?thesis by (simp only: valid_index_rev)
qed

lemma valid_index_snoc:
  "valid_index (E @ [n]) ev \<longleftrightarrow> (\<exists>ev' i. ev = ev' @ [i] \<and> i < n \<and> valid_index E ev')"
proof (cases ev rule: rev_cases)
  case Nil
  then show ?thesis by (simp add: valid_index_def)
next
  case (snoc ev' i)
  then show ?thesis by simp
qed

lemma rep_unsqueeze:
  assumes "rep T Ds E X \<phi>"
  shows "rep T Ds (E @ [1]) (unsqueeze_last X) (\<lambda>idx ev. \<phi> idx (butlast ev))"
proof -
  from assms obtain B where B: "shape X = B @ E" "fits B T" "\<And>d. d \<in> set Ds \<Longrightarrow> fits d B"
    "\<And>idx ev. valid_index T idx \<Longrightarrow> valid_index E ev \<Longrightarrow> elems X (bidx B idx @ ev) = \<phi> idx ev"
    unfolding rep_def by blast
  show ?thesis
  proof (rule repI [where B = B])
    show "shape (unsqueeze_last X) = B @ E @ [1]" by (simp add: unsqueeze_last_def B)
    show "fits B T" by fact
    show "\<And>d. d \<in> set Ds \<Longrightarrow> fits d B" by fact
    fix idx ev assume v: "valid_index T idx" "valid_index (E @ [1]) ev"
    from v(2) obtain ev' where ev: "ev = ev' @ [0]" "valid_index E ev'"
      by (auto simp: valid_index_snoc)
    have "valid_index (B @ E @ [1]) (bidx B idx @ ev)"
      using B(2) v by (intro valid_batch_event)
    then have "elems (unsqueeze_last X) (bidx B idx @ ev) = elems X (butlast (bidx B idx @ ev))"
      by (simp add: unsqueeze_last_def elems_mk B(1))
    also have "butlast (bidx B idx @ ev) = bidx B idx @ ev'"
      by (simp add: ev butlast_append)
    finally show "elems (unsqueeze_last X) (bidx B idx @ ev) = \<phi> idx (butlast ev)"
      using B(4) [OF v(1) ev(2)] by (simp add: ev)
  qed
qed

lemma rep_squeeze:
  assumes "rep T Ds (E @ [1]) X \<phi>"
  shows "rep T Ds E (squeeze_last X) (\<lambda>idx ev. \<phi> idx (ev @ [0]))"
proof -
  from assms obtain B where B: "shape X = B @ E @ [1]" "fits B T" "\<And>d. d \<in> set Ds \<Longrightarrow> fits d B"
    "\<And>idx ev. valid_index T idx \<Longrightarrow> valid_index (E @ [1]) ev \<Longrightarrow> elems X (bidx B idx @ ev) = \<phi> idx ev"
    unfolding rep_def by blast
  have sq: "squeeze_last X = mk (B @ E) (\<lambda>idx. elems X (idx @ [0]))"
    by (simp add: squeeze_last_def B(1) butlast_append)
  show ?thesis
  proof (rule repI [where B = B])
    show "shape (squeeze_last X) = B @ E" by (simp add: sq)
    show "fits B T" by fact
    show "\<And>d. d \<in> set Ds \<Longrightarrow> fits d B" by fact
    fix idx ev assume v: "valid_index T idx" "valid_index E ev"
    have "valid_index (B @ E) (bidx B idx @ ev)"
      using B(2) v by (intro valid_batch_event)
    then have "elems (squeeze_last X) (bidx B idx @ ev) = elems X (bidx B idx @ (ev @ [0]))"
      by (simp add: sq elems_mk)
    also have "\<dots> = \<phi> idx (ev @ [0])"
      using v by (intro B(4)) simp_all
    finally show "elems (squeeze_last X) (bidx B idx @ ev) = \<phi> idx (ev @ [0])" .
  qed
qed

lemma rep_sum_last:
  assumes "rep T Ds (E @ [n]) X \<phi>"
  shows "rep T Ds E (sum_last X) (\<lambda>idx ev. \<Sum>i\<leftarrow>[0..<n]. \<phi> idx (ev @ [i]))"
proof -
  from assms obtain B where B: "shape X = B @ E @ [n]" "fits B T" "\<And>d. d \<in> set Ds \<Longrightarrow> fits d B"
    "\<And>idx ev. valid_index T idx \<Longrightarrow> valid_index (E @ [n]) ev \<Longrightarrow> elems X (bidx B idx @ ev) = \<phi> idx ev"
    unfolding rep_def by blast
  have sm: "sum_last X = mk (B @ E) (\<lambda>idx. \<Sum>i\<leftarrow>[0..<n]. elems X (idx @ [i]))"
    by (simp add: sum_last_def B(1) butlast_append)
  show ?thesis
  proof (rule repI [where B = B])
    show "shape (sum_last X) = B @ E" by (simp add: sm)
    show "fits B T" by fact
    show "\<And>d. d \<in> set Ds \<Longrightarrow> fits d B" by fact
    fix idx ev assume v: "valid_index T idx" "valid_index E ev"
    have "valid_index (B @ E) (bidx B idx @ ev)"
      using B(2) v by (intro valid_batch_event)
    then have "elems (sum_last X) (bidx B idx @ ev)
        = (\<Sum>i\<leftarrow>[0..<n]. elems X (bidx B idx @ (ev @ [i])))"
      by (simp add: sm elems_mk)
    also have "\<dots> = (\<Sum>i\<leftarrow>[0..<n]. \<phi> idx (ev @ [i]))"
    proof (rule arg_cong [where f = sum_list], rule map_cong [OF refl])
      fix i assume "i \<in> set [0..<n]"
      then show "elems X (bidx B idx @ (ev @ [i])) = \<phi> idx (ev @ [i])"
        using v by (intro B(4)) simp_all
    qed
    finally show "elems (sum_last X) (bidx B idx @ ev) = (\<Sum>i\<leftarrow>[0..<n]. \<phi> idx (ev @ [i]))" .
  qed
qed

lemma shape_upto_append [simp]: "length E = k \<Longrightarrow> shape_upto k (B @ E) = B"
  by (simp add: shape_upto_def)

lemma rep_matmul:
  assumes "rep T Da [m, k] a \<phi>a" "rep T Db [k, p] b \<phi>b"
  shows "\<exists>r. matmul a b = Inr r \<and> canonical r \<and>
           rep T (Da @ Db) [m, p] r
             (\<lambda>idx ev. \<Sum>l\<leftarrow>[0..<k]. \<phi>a idx [ev ! 0, l] * \<phi>b idx [l, ev ! 1])"
proof -
  from assms(1) obtain Ba where Ba: "shape a = Ba @ [m, k]" "fits Ba T" "\<And>d. d \<in> set Da \<Longrightarrow> fits d Ba"
    "\<And>idx ev. valid_index T idx \<Longrightarrow> valid_index [m, k] ev \<Longrightarrow> elems a (bidx Ba idx @ ev) = \<phi>a idx ev"
    unfolding rep_def by blast
  from assms(2) obtain Bb where Bb: "shape b = Bb @ [k, p]" "fits Bb T" "\<And>d. d \<in> set Db \<Longrightarrow> fits d Bb"
    "\<And>idx ev. valid_index T idx \<Longrightarrow> valid_index [k, p] ev \<Longrightarrow> elems b (bidx Bb idx @ ev) = \<phi>b idx ev"
    unfolding rep_def by blast
  from bshape_least [OF Ba(2) Bb(2)] obtain Bc where Bc: "bshape Ba Bb = Some Bc" "fits Bc T"
    by blast
  from bshape_upper [OF Bc(1)] have up: "fits Ba Bc" "fits Bb Bc" by auto
  define r where "r = mk (Bc @ [m, p])
     (\<lambda>idx. let bi = take (length Bc) idx; i = idx ! length Bc; j = idx ! Suc (length Bc)
            in \<Sum>l\<leftarrow>[0..<k]. elems a (bidx Ba bi @ [i, l]) * elems b (bidx Bb bi @ [l, j]))"
  have res: "matmul a b = Inr r"
    by (simp add: matmul_def Ba(1) Bb(1) Bc(1) r_def nth_append Let_def)
  have "rep T (Da @ Db) [m, p] r
          (\<lambda>idx ev. \<Sum>l\<leftarrow>[0..<k]. \<phi>a idx [ev ! 0, l] * \<phi>b idx [l, ev ! 1])"
  proof (rule repI [where B = Bc])
    show "shape r = Bc @ [m, p]" by (simp add: r_def)
    show "fits Bc T" by fact
    show "\<And>d. d \<in> set (Da @ Db) \<Longrightarrow> fits d Bc"
      using Ba(3) Bb(3) up by (auto intro: fits_trans)
    fix idx ev assume v: "valid_index T idx" "valid_index [m, p] ev"
    from v(2) obtain i j where ev: "ev = [i, j]" "i < m" "j < p" by auto
    have lc: "length Bc \<le> length idx"
      using Bc(2) v(1) fits_length valid_index_length by fastforce
    have lbc: "length (bidx Bc idx) = length Bc" using lc by (rule length_bidx)
    have va: "valid_index (Bc @ [m, p]) (bidx Bc idx @ ev)"
      using Bc(2) v by (intro valid_batch_event)
    have ia: "bidx Ba (bidx Bc idx) = bidx Ba idx" using up(1) lc by (rule bidx_comp)
    have ib: "bidx Bb (bidx Bc idx) = bidx Bb idx" using up(2) lc by (rule bidx_comp)
    have "elems r (bidx Bc idx @ ev)
        = (\<Sum>l\<leftarrow>[0..<k]. elems a (bidx Ba idx @ [i, l]) * elems b (bidx Bb idx @ [l, j]))"
      using va lbc by (simp add: r_def elems_mk ev(1) nth_append ia ib Let_def)
    also have "\<dots> = (\<Sum>l\<leftarrow>[0..<k]. \<phi>a idx [i, l] * \<phi>b idx [l, j])"
    proof (rule arg_cong [where f = sum_list], rule map_cong [OF refl])
      fix l assume "l \<in> set [0..<k]"
      then show "elems a (bidx Ba idx @ [i, l]) * elems b (bidx Bb idx @ [l, j])
          = \<phi>a idx [i, l] * \<phi>b idx [l, j]"
        using v(1) ev by (simp add: Ba(4) Bb(4))
    qed
    finally show "elems r (bidx Bc idx @ ev)
        = (\<Sum>l\<leftarrow>[0..<k]. \<phi>a idx [ev ! 0, l] * \<phi>b idx [l, ev ! 1])"
      by (simp add: ev(1))
  qed
  moreover have "canonical r" by (simp add: r_def)
  ultimately show ?thesis using res by blast
qed

lemma expand_r_Nil: "expand_r [] (map int zs) = Some zs"
  by (induction zs) auto

lemma expand_r_fits: "fits_r xs zs \<Longrightarrow> expand_r xs (map int zs) = Some zs"
  by (induction xs zs rule: fits_r.induct) (auto simp: expand_r_Nil)

lemma rep_expand:
  assumes "rep T Ds [] X \<phi>" "fits (shape X) S" "fits S T"
  shows "\<exists>r. expand X (map int S) = Inr r \<and> canonical r \<and> rep T (S # Ds) [] r \<phi>"
proof -
  from assms(1) obtain B where B: "shape X = B @ []" "fits B T" "\<And>d. d \<in> set Ds \<Longrightarrow> fits d B"
    "\<And>idx ev. valid_index T idx \<Longrightarrow> valid_index [] ev \<Longrightarrow> elems X (bidx B idx @ ev) = \<phi> idx ev"
    unfolding rep_def by blast
  have BX: "B = shape X" using B(1) by simp
  define r where "r = mk S (\<lambda>idx. elems X (bidx (shape X) idx))"
  have "expand_r (rev (shape X)) (rev (map int S)) = Some (rev S)"
    using assms(2) expand_r_fits [of "rev (shape X)" "rev S"] by (simp add: fits_def rev_map)
  then have res: "expand X (map int S) = Inr r"
    by (simp add: expand_def r_def)
  have "rep T (S # Ds) [] r \<phi>"
  proof (rule repI [where B = S])
    show "shape r = S @ []" by (simp add: r_def)
    show "fits S T" by fact
    show "\<And>d. d \<in> set (S # Ds) \<Longrightarrow> fits d S"
      using B(3) assms(2) BX by (auto intro: fits_trans)
    fix idx ev assume v: "valid_index T idx" "valid_index [] ev"
    have ls: "length S \<le> length idx"
      using assms(3) v(1) fits_length valid_index_length by fastforce
    have "valid_index S (bidx S idx)" using assms(3) v(1) by (rule bidx_valid)
    moreover have "bidx (shape X) (bidx S idx) = bidx (shape X) idx"
      using assms(2) ls by (rule bidx_comp)
    ultimately show "elems r (bidx S idx @ ev) = \<phi> idx ev"
      using v B(4) [OF v] by (simp add: r_def elems_mk BX)
  qed
  moreover have "canonical r" by (simp add: r_def)
  ultimately show ?thesis using res by blast
qed

lemma broadcast_from_upper:
  "broadcast_from acc ss = Inr T \<Longrightarrow> fits acc T \<and> (\<forall>s \<in> set ss. fits s T)"
proof (induction ss arbitrary: acc)
  case (Cons s ss)
  from Cons.prems obtain c where c: "bshape acc s = Some c" "broadcast_from c ss = Inr T"
    by (auto split: option.splits)
  from Cons.IH [OF c(2)] bshape_upper [OF c(1)] show ?case
    by (auto intro: fits_trans)
qed simp

lemma broadcast_from_least:
  "broadcast_from acc ss = Inr T \<Longrightarrow> fits acc U \<Longrightarrow> \<forall>s \<in> set ss. fits s U \<Longrightarrow> fits T U"
proof (induction ss arbitrary: acc)
  case (Cons s ss)
  from Cons.prems obtain c where c: "bshape acc s = Some c" "broadcast_from c ss = Inr T"
    by (auto split: option.splits)
  from bshape_least [of acc U s] Cons.prems c(1) have "fits c U" by auto
  with Cons.IH [OF c(2)] Cons.prems show ?case by auto
qed simp

lemma broadcast_from_exists:
  "fits acc U \<Longrightarrow> \<forall>s \<in> set ss. fits s U \<Longrightarrow> \<exists>T. broadcast_from acc ss = Inr T \<and> fits T U"
proof (induction ss arbitrary: acc)
  case (Cons s ss)
  from bshape_least [of acc U s] Cons.prems obtain c where c: "bshape acc s = Some c" "fits c U"
    by auto
  with Cons.IH [of c] Cons.prems show ?case by auto
qed simp

lemma broadcast_shape_upper:
  "broadcast_shape ss = Inr T \<Longrightarrow> s \<in> set ss \<Longrightarrow> fits s T"
  using broadcast_from_upper [of "[]" ss T] by (simp add: broadcast_shape_def)

lemma broadcast_shape_least:
  "broadcast_shape ss = Inr T \<Longrightarrow> \<forall>s \<in> set ss. fits s U \<Longrightarrow> fits T U"
  using broadcast_from_least [of "[]" ss T U] by (simp add: broadcast_shape_def)

lemma broadcast_shape_exists:
  "\<forall>s \<in> set ss. fits s U \<Longrightarrow> \<exists>T. broadcast_shape ss = Inr T \<and> fits T U"
  using broadcast_from_exists [of "[]" U ss] by (simp add: broadcast_shape_def)

lemma rep_cover:
  assumes "rep T Ds E X \<phi>" "d \<in> set Ds" "fits d' d"
  shows "rep T (d' # Ds) E X \<phi>"
proof -
  from assms(1) obtain B where B: "shape X = B @ E" "fits B T" "\<And>d. d \<in> set Ds \<Longrightarrow> fits d B"
    "\<And>idx ev. valid_index T idx \<Longrightarrow> valid_index E ev \<Longrightarrow> elems X (bidx B idx @ ev) = \<phi> idx ev"
    unfolding rep_def by blast
  show ?thesis
    by (rule repI [where B = B]) (use B assms(2,3) in \<open>auto intro: fits_trans\<close>)
qed

lemma rep_field:
  "shape X = B @ E \<Longrightarrow> length E = k \<Longrightarrow> fits B T \<Longrightarrow> rep T [B] E X (\<lambda>idx ev. bread X k idx ev)"
  unfolding bread_def by (rule repI [where B = B]) auto

lemma rep_scalar_field: "fits (shape X) T \<Longrightarrow> rep T [shape X] [] X (\<lambda>idx ev. bread X 0 idx [])"
  unfolding bread_def by (rule repI [where B = "shape X"]) (auto simp: shape_upto_def)

lemma size_last_snoc [simp]: "shape v = B @ [n] \<Longrightarrow> size_last v = Inr n"
  by (simp add: size_last_def)

lemma log_density_sem:
  assumes sP: "shape (precision g) = BP @ [n, n]"
    and si: "shape (info_vec g) = Bi @ [n]"
    and sv: "shape v = Bv @ [n]"
    and fl: "fits (shape (log_normalizer g)) T" and fi: "fits Bi T" and fP: "fits BP T"
    and fa: "fits (shape (alpha g)) T" and fb: "fits (shape (beta g)) T"
    and fv: "fits Bv T" and fs: "fits (shape s) T"
  shows "\<exists>r. log_density g v s = Inr r \<and> canonical r \<and>
     rep T [shape (log_normalizer g), Bi, BP, shape (alpha g), shape (beta g), Bv, shape s] [] r
       (\<lambda>idx ev. gg_density_at g v s idx)"
proof -
  note rl = rep_scalar_field [OF fl] and ra = rep_scalar_field [OF fa]
    and rb = rep_scalar_field [OF fb] and rs = rep_scalar_field [OF fs]
  have rv: "rep T [Bv] [n] v (\<lambda>idx ev. bread v 1 idx ev)"
    using sv fv by (intro rep_field) simp_all
  have ri: "rep T [Bi] [n] (info_vec g) (\<lambda>idx ev. bread (info_vec g) 1 idx ev)"
    using si fi by (intro rep_field) simp_all
  have rP: "rep T [BP] [n, n] (precision g) (\<lambda>idx ev. bread (precision g) 2 idx ev)"
    using sP fP by (intro rep_field) simp_all
  have lv: "last (shape v) = n" by (simp add: sv)
  from rep_tbin [OF ra rep_tmap [OF rs], of "(*)" ln]
  obtain t1 where t1: "tmul (alpha g) (tlog s) = Inr t1"
    "rep T ([shape (alpha g)] @ [shape s]) [] t1
       (\<lambda>idx ev. bread (alpha g) 0 idx [] * ln (bread s 0 idx []))"
    unfolding tmul_def tlog_def by blast
  show ?thesis
  proof (cases "n = 0")
    case True
    have "\<forall>d \<in> set [shape (log_normalizer g), shape_upto 1 (shape (info_vec g)),
        shape_upto 2 (shape (precision g)), shape (alpha g), shape (beta g)]. fits d T"
      using fl fi fP fa fb by (simp add: si sP)
    from broadcast_shape_exists [OF this] obtain bg where
      bg: "batch_shape g = Inr bg" "fits bg T"
      unfolding batch_shape_def field_batch_shapes_def by blast
    have "\<forall>d \<in> set [shape_upto 1 (shape v), bg]. fits d T"
      using fv bg(2) by (simp add: sv)
    from broadcast_shape_exists [OF this] obtain bs where
      bs: "broadcast_shape [shape_upto 1 (shape v), bg] = Inr bs" "fits bs T"
      by blast
    have up1: "fits Bv bs" "fits bg bs"
      using broadcast_shape_upper [OF bs(1)] by (simp_all add: sv)
    have up2: "fits (shape (log_normalizer g)) bg" "fits Bi bg" "fits BP bg"
      using broadcast_shape_upper [OF bg(1) [unfolded batch_shape_def field_batch_shapes_def]]
      by (simp_all add: si sP)
    from rep_tbin [OF rb rs, of "(*)"]
    obtain t2 where t2: "tmul (beta g) s = Inr t2"
      "rep T ([shape (beta g)] @ [shape s]) [] t2
         (\<lambda>idx ev. bread (beta g) 0 idx [] * bread s 0 idx [])"
      unfolding tmul_def by blast
    from rep_tbin [OF t1(2) t2(2), of "(-)"]
    obtain t3 where t3: "tsub t1 t2 = Inr t3"
      "rep T (([shape (alpha g)] @ [shape s]) @ ([shape (beta g)] @ [shape s])) [] t3
         (\<lambda>idx ev. bread (alpha g) 0 idx [] * ln (bread s 0 idx [])
                    - bread (beta g) 0 idx [] * bread s 0 idx [])"
      unfolding tsub_def by blast
    from rep_expand [OF rl fits_trans [OF up2(1) up1(2)] bs(2)]
    obtain ln' where ln': "expand (log_normalizer g) (map int bs) = Inr ln'"
      "rep T [bs, shape (log_normalizer g)] [] ln' (\<lambda>idx ev. bread (log_normalizer g) 0 idx [])"
      by blast
    have ln'': "rep T [Bv, Bi, BP, bs, shape (log_normalizer g)] [] ln'
        (\<lambda>idx ev. bread (log_normalizer g) 0 idx [])"
    proof -
      have a1: "rep T [BP, bs, shape (log_normalizer g)] [] ln'
          (\<lambda>idx ev. bread (log_normalizer g) 0 idx [])"
        by (rule rep_cover [OF ln'(2), where d = bs]) (simp, rule fits_trans [OF up2(3) up1(2)])
      have a2: "rep T [Bi, BP, bs, shape (log_normalizer g)] [] ln'
          (\<lambda>idx ev. bread (log_normalizer g) 0 idx [])"
        by (rule rep_cover [OF a1, where d = bs]) (simp, rule fits_trans [OF up2(2) up1(2)])
      show ?thesis
        by (rule rep_cover [OF a2, where d = bs]) (simp, rule up1(1))
    qed
    from rep_tbin [OF t3(2) ln'', of "(+)"]
    obtain r where r: "tadd t3 ln' = Inr r" "canonical r"
      "rep T ((([shape (alpha g)] @ [shape s]) @ ([shape (beta g)] @ [shape s]))
              @ [Bv, Bi, BP, bs, shape (log_normalizer g)]) [] r
         (\<lambda>idx ev. bread (alpha g) 0 idx [] * ln (bread s 0 idx [])
                    - bread (beta g) 0 idx [] * bread s 0 idx []
                    + bread (log_normalizer g) 0 idx [])"
      unfolding tadd_def by blast
    have "log_density g v s = Inr r"
      using True by (simp add: log_density_def sv bg(1) bs(1) [unfolded sv, simplified] t1(1) t2(1) t3(1) ln'(1) r(1))
    moreover have "rep T [shape (log_normalizer g), Bi, BP, shape (alpha g), shape (beta g), Bv, shape s] [] r
       (\<lambda>idx ev. gg_density_at g v s idx)"
      by (rule rep_cong [OF rep_weaken [OF r(3)]]) (auto simp: gg_density_at_def lv True)
    ultimately show ?thesis using r(2) by blast
  next
    case False
    have ru: "rep T [Bv] [n, 1] (unsqueeze_last v) (\<lambda>idx ev. bread v 1 idx (butlast ev))"
      using rep_unsqueeze [OF rv] by simp
    from rep_matmul [OF rP ru]
    obtain pv where pv: "matmul (precision g) (unsqueeze_last v) = Inr pv"
      "rep T ([BP] @ [Bv]) [n, 1] pv
         (\<lambda>idx ev. \<Sum>l\<leftarrow>[0..<n]. bread (precision g) 2 idx [ev ! 0, l] * bread v 1 idx (butlast [l, ev ! 1]))"
      by auto
    have pv': "rep T ([BP] @ [Bv]) ([n] @ [1]) pv
         (\<lambda>idx ev. \<Sum>l\<leftarrow>[0..<n]. bread (precision g) 2 idx [ev ! 0, l] * bread v 1 idx (butlast [l, ev ! 1]))"
      using pv(2) by simp
    from rep_tbin [OF rep_tmap [OF rep_squeeze [OF pv']] ri, of "(+)" "\<lambda>x. - 0.5 * x"]
    obtain r1 where r1: "tadd (smul (- 0.5) (squeeze_last pv)) (info_vec g) = Inr r1"
      "rep T (([BP] @ [Bv]) @ [Bi]) [n] r1
         (\<lambda>idx ev. - 0.5 * (\<Sum>l\<leftarrow>[0..<n]. bread (precision g) 2 idx [(ev @ [0]) ! 0, l]
                       * bread v 1 idx (butlast [l, (ev @ [0]) ! 1]))
                    + bread (info_vec g) 1 idx ev)"
      unfolding tadd_def smul_def by blast
    from rep_tbin [OF rv r1(2), of "(*)"]
    obtain r2 where r2: "tmul v r1 = Inr r2"
      "rep T ([Bv] @ (([BP] @ [Bv]) @ [Bi])) [n] r2
         (\<lambda>idx ev. bread v 1 idx ev *
            (- 0.5 * (\<Sum>l\<leftarrow>[0..<n]. bread (precision g) 2 idx [(ev @ [0]) ! 0, l]
                       * bread v 1 idx (butlast [l, (ev @ [0]) ! 1]))
             + bread (info_vec g) 1 idx ev))"
      unfolding tmul_def by blast
    have r2': "rep T ([Bv] @ (([BP] @ [Bv]) @ [Bi])) ([] @ [n]) r2
         (\<lambda>idx ev. bread v 1 idx ev *
            (- 0.5 * (\<Sum>l\<leftarrow>[0..<n]. bread (precision g) 2 idx [(ev @ [0]) ! 0, l]
                       * bread v 1 idx (butlast [l, (ev @ [0]) ! 1]))
             + bread (info_vec g) 1 idx ev))"
      using r2(2) by simp
    define Q where "Q = (\<lambda>idx. \<Sum>i\<leftarrow>[0..<n]. bread v 1 idx [i] *
            (- 0.5 * (\<Sum>l\<leftarrow>[0..<n]. bread (precision g) 2 idx [i, l] * bread v 1 idx [l])
             + bread (info_vec g) 1 idx [i]))"
    have r3: "rep T ([Bv] @ (([BP] @ [Bv]) @ [Bi])) [] (sum_last r2) (\<lambda>idx ev. Q idx)"
      by (rule rep_cong [OF rep_sum_last [OF r2']]) (simp add: Q_def)
    from rep_tbin [OF r3 rb, of "(-)"]
    obtain t2 where t2: "tsub (sum_last r2) (beta g) = Inr t2"
      "rep T (([Bv] @ (([BP] @ [Bv]) @ [Bi])) @ [shape (beta g)]) [] t2
         (\<lambda>idx ev. Q idx - bread (beta g) 0 idx [])"
      unfolding tsub_def by blast
    from rep_tbin [OF t2(2) rs, of "(*)"]
    obtain t3 where t3: "tmul t2 s = Inr t3"
      "rep T ((([Bv] @ (([BP] @ [Bv]) @ [Bi])) @ [shape (beta g)]) @ [shape s]) [] t3
         (\<lambda>idx ev. (Q idx - bread (beta g) 0 idx []) * bread s 0 idx [])"
      unfolding tmul_def by blast
    from rep_tbin [OF t1(2) t3(2), of "(+)"]
    obtain t4 where t4: "tadd t1 t3 = Inr t4"
      "rep T (([shape (alpha g)] @ [shape s]) @
              (((([Bv] @ (([BP] @ [Bv]) @ [Bi])) @ [shape (beta g)]) @ [shape s]))) [] t4
         (\<lambda>idx ev. bread (alpha g) 0 idx [] * ln (bread s 0 idx []) +
            (Q idx - bread (beta g) 0 idx []) * bread s 0 idx [])"
      unfolding tadd_def by blast
    from rep_tbin [OF t4(2) rl, of "(+)"]
    obtain r where r: "tadd t4 (log_normalizer g) = Inr r" "canonical r"
      "rep T ((([shape (alpha g)] @ [shape s]) @
              (((([Bv] @ (([BP] @ [Bv]) @ [Bi])) @ [shape (beta g)]) @ [shape s])))
              @ [shape (log_normalizer g)]) [] r
         (\<lambda>idx ev. bread (alpha g) 0 idx [] * ln (bread s 0 idx []) +
            (Q idx - bread (beta g) 0 idx []) * bread s 0 idx []
            + bread (log_normalizer g) 0 idx [])"
      unfolding tadd_def by blast
    have "log_density g v s = Inr r"
      using False r1(1) by (simp add: log_density_def sv pv(1) r2(1) t1(1) t2(1) t3(1) t4(1) r(1))
    moreover have "rep T [shape (log_normalizer g), Bi, BP, shape (alpha g), shape (beta g), Bv, shape s] [] r
       (\<lambda>idx ev. gg_density_at g v s idx)"
      by (rule rep_cong [OF rep_weaken [OF r(3)]]) (auto simp: gg_density_at_def lv Q_def)
    ultimately show ?thesis using r(2) by blast
  qed
qed

lemma rep_bread:
  assumes "rep T Ds E X \<phi>" "valid_index T idx" "valid_index E ev"
  shows "bread X (length E) idx ev = \<phi> idx ev"
proof -
  from assms(1) obtain B where B: "shape X = B @ E"
    "\<And>idx ev. valid_index T idx \<Longrightarrow> valid_index E ev \<Longrightarrow> elems X (bidx B idx @ ev) = \<phi> idx ev"
    unfolding rep_def by blast
  show ?thesis
    using B(2) [OF assms(2,3)] by (simp add: bread_def B(1))
qed

lemma rep_shape:
  assumes "rep T Ds E X \<phi>"
  shows "shape X = shape_upto (length E) (shape X) @ E \<and> fits (shape_upto (length E) (shape X)) T
    \<and> (\<forall>d \<in> set Ds. fits d (shape_upto (length E) (shape X)))"
proof -
  from assms(1) obtain B where B: "shape X = B @ E" "fits B T" "\<forall>d \<in> set Ds. fits d B"
    unfolding rep_def by blast
  then show ?thesis by simp
qed

lemma gg_inv_shapes:
  assumes "gg_inv g" "dim_of g = Inr n"
  shows "shape (info_vec g) = shape_upto 1 (shape (info_vec g)) @ [n]"
    and "shape (precision g) = shape_upto 2 (shape (precision g)) @ [n, n]"
proof -
  from assms have ne: "shape (info_vec g) \<noteq> []" and n: "last (shape (info_vec g)) = n"
    by (auto simp: dim_of_def size_last_def split: if_splits)
  from ne show 1: "shape (info_vec g) = shape_upto 1 (shape (info_vec g)) @ [n]"
    using n by (cases "shape (info_vec g)" rule: rev_cases) (simp_all add: shape_upto_def)
  from assms(1) have l2: "2 \<le> length (shape (precision g))"
    and eq: "shape_from 2 (shape (precision g)) = [n, n]"
    using ne n by (simp_all add: gg_inv_def ndim_def shape_from_1)
  show "shape (precision g) = shape_upto 2 (shape (precision g)) @ [n, n]"
    using append_take_drop_id [of "length (shape (precision g)) - 2" "shape (precision g)"] eq
    unfolding shape_upto_def shape_from_def by metis
qed

lemma gg_inv_I:
  "shape (info_vec g) = Bi @ [n] \<Longrightarrow> shape (precision g) = BP @ [n, n] \<Longrightarrow> gg_inv g"
  by (simp add: gg_inv_def ndim_def shape_from_def)

lemma sum_list_add_map:
  fixes f g :: "nat \<Rightarrow> real"
  shows "(\<Sum>x\<leftarrow>xs. f x + g x) = (\<Sum>x\<leftarrow>xs. f x) + (\<Sum>x\<leftarrow>xs. g x)"
  by (induction xs) (simp_all add: algebra_simps)

lemma sum_list_cong_upt:
  "(\<And>i. i < n \<Longrightarrow> f i = g i) \<Longrightarrow> (\<Sum>i\<leftarrow>[0..<n]. f i) = (\<Sum>i\<leftarrow>[0..<n]. (g i :: real))"
  by (rule arg_cong [where f = sum_list], rule map_cong) simp_all

lemma add_fields:
  assumes i1: "shape (info_vec g1) = Bi1 @ [n]" and p1: "shape (precision g1) = BP1 @ [n, n]"
    and i2: "shape (info_vec g2) = Bi2 @ [n]" and p2: "shape (precision g2) = BP2 @ [n, n]"
    and f1: "fits (shape (log_normalizer g1)) T" "fits Bi1 T" "fits BP1 T"
      "fits (shape (alpha g1)) T" "fits (shape (beta g1)) T"
    and f2: "fits (shape (log_normalizer g2)) T" "fits Bi2 T" "fits BP2 T"
      "fits (shape (alpha g2)) T" "fits (shape (beta g2)) T"
  shows "\<exists>g. add g1 g2 = Inr g \<and>
     tadd (log_normalizer g1) (log_normalizer g2) = Inr (log_normalizer g) \<and>
     tadd (info_vec g1) (info_vec g2) = Inr (info_vec g) \<and>
     tadd (precision g1) (precision g2) = Inr (precision g) \<and>
     tadd (alpha g1) (alpha g2) = Inr (alpha g) \<and>
     tadd (beta g1) (beta g2) = Inr (beta g) \<and>
     rep T [shape (log_normalizer g1), shape (log_normalizer g2)] [] (log_normalizer g)
       (\<lambda>idx ev. bread (log_normalizer g1) 0 idx [] + bread (log_normalizer g2) 0 idx []) \<and>
     rep T [Bi1, Bi2] [n] (info_vec g)
       (\<lambda>idx ev. bread (info_vec g1) 1 idx ev + bread (info_vec g2) 1 idx ev) \<and>
     rep T [BP1, BP2] [n, n] (precision g)
       (\<lambda>idx ev. bread (precision g1) 2 idx ev + bread (precision g2) 2 idx ev) \<and>
     rep T [shape (alpha g1), shape (alpha g2)] [] (alpha g)
       (\<lambda>idx ev. bread (alpha g1) 0 idx [] + bread (alpha g2) 0 idx []) \<and>
     rep T [shape (beta g1), shape (beta g2)] [] (beta g)
       (\<lambda>idx ev. bread (beta g1) 0 idx [] + bread (beta g2) 0 idx [])"
proof -
  have d1: "dim_of g1 = Inr n" and d2: "dim_of g2 = Inr n"
    by (simp_all add: dim_of_def i1 i2)
  from rep_tbin [OF rep_scalar_field [OF f1(1)] rep_scalar_field [OF f2(1)], of "(+)"]
  obtain l where l: "tadd (log_normalizer g1) (log_normalizer g2) = Inr l"
    "rep T ([shape (log_normalizer g1)] @ [shape (log_normalizer g2)]) [] l
       (\<lambda>idx ev. bread (log_normalizer g1) 0 idx [] + bread (log_normalizer g2) 0 idx [])"
    unfolding tadd_def by blast
  have ri1: "rep T [Bi1] [n] (info_vec g1) (\<lambda>idx ev. bread (info_vec g1) 1 idx ev)"
    using i1 f1(2) by (intro rep_field) simp_all
  have ri2: "rep T [Bi2] [n] (info_vec g2) (\<lambda>idx ev. bread (info_vec g2) 1 idx ev)"
    using i2 f2(2) by (intro rep_field) simp_all
  from rep_tbin [OF ri1 ri2, of "(+)"]
  obtain iv where iv: "tadd (info_vec g1) (info_vec g2) = Inr iv"
    "rep T ([Bi1] @ [Bi2]) [n] iv
       (\<lambda>idx ev. bread (info_vec g1) 1 idx ev + bread (info_vec g2) 1 idx ev)"
    unfolding tadd_def by blast
  have rp1: "rep T [BP1] [n, n] (precision g1) (\<lambda>idx ev. bread (precision g1) 2 idx ev)"
    using p1 f1(3) by (intro rep_field) simp_all
  have rp2: "rep T [BP2] [n, n] (precision g2) (\<lambda>idx ev. bread (precision g2) 2 idx ev)"
    using p2 f2(3) by (intro rep_field) simp_all
  from rep_tbin [OF rp1 rp2, of "(+)"]
  obtain P where P: "tadd (precision g1) (precision g2) = Inr P"
    "rep T ([BP1] @ [BP2]) [n, n] P
       (\<lambda>idx ev. bread (precision g1) 2 idx ev + bread (precision g2) 2 idx ev)"
    unfolding tadd_def by blast
  from rep_tbin [OF rep_scalar_field [OF f1(4)] rep_scalar_field [OF f2(4)], of "(+)"]
  obtain a where a: "tadd (alpha g1) (alpha g2) = Inr a"
    "rep T ([shape (alpha g1)] @ [shape (alpha g2)]) [] a
       (\<lambda>idx ev. bread (alpha g1) 0 idx [] + bread (alpha g2) 0 idx [])"
    unfolding tadd_def by blast
  from rep_tbin [OF rep_scalar_field [OF f1(5)] rep_scalar_field [OF f2(5)], of "(+)"]
  obtain b where b: "tadd (beta g1) (beta g2) = Inr b"
    "rep T ([shape (beta g1)] @ [shape (beta g2)]) [] b
       (\<lambda>idx ev. bread (beta g1) 0 idx [] + bread (beta g2) 0 idx [])"
    unfolding tadd_def by blast
  define g where "g = \<lparr>log_normalizer = l, info_vec = iv, precision = P, alpha = a, beta = b\<rparr>"
  from iv(2) obtain Bi where Bi: "shape iv = Bi @ [n]"
    unfolding rep_def by blast
  from P(2) obtain BP where BP: "shape P = BP @ [n, n]"
    unfolding rep_def by blast
  have "gg_inv g"
    by (rule gg_inv_I [where n = n and Bi = Bi and BP = BP]) (simp_all add: g_def Bi BP)
  then have "GaussianGamma_init [l, iv, P, a, b] = Inr g"
    by (simp add: gg_inv_def g_def)
  then have "add g1 g2 = Inr g"
    by (simp add: add_def d1 d2 l(1) iv(1) P(1) a(1) b(1))
  then show ?thesis
    using l iv P a b by (intro exI [where x = g]) (simp add: g_def)
qed

lemma size_last_shape: "size_last v = Inr n \<Longrightarrow> shape v = shape_upto 1 (shape v) @ [n]"
  by (cases "shape v" rule: rev_cases) (auto simp: size_last_def shape_upto_def split: if_splits)

lemma density_at_add:
  assumes ra: "\<And>idx. valid_index T idx \<Longrightarrow> bread (alpha g) 0 idx [] = bread (alpha g1) 0 idx [] + bread (alpha g2) 0 idx []"
    and rb: "\<And>idx. valid_index T idx \<Longrightarrow> bread (beta g) 0 idx [] = bread (beta g1) 0 idx [] + bread (beta g2) 0 idx []"
    and rl: "\<And>idx. valid_index T idx \<Longrightarrow> bread (log_normalizer g) 0 idx [] = bread (log_normalizer g1) 0 idx [] + bread (log_normalizer g2) 0 idx []"
    and ri: "\<And>idx i. valid_index T idx \<Longrightarrow> i < n \<Longrightarrow> bread (info_vec g) 1 idx [i] = bread (info_vec g1) 1 idx [i] + bread (info_vec g2) 1 idx [i]"
    and rp: "\<And>idx i l. valid_index T idx \<Longrightarrow> i < n \<Longrightarrow> l < n \<Longrightarrow> bread (precision g) 2 idx [i, l] = bread (precision g1) 2 idx [i, l] + bread (precision g2) 2 idx [i, l]"
    and n: "last (shape v) = n" and v: "valid_index T idx"
  shows "gg_density_at g v s idx = gg_density_at g1 v s idx + gg_density_at g2 v s idx"
proof -
  define V where "V = (\<lambda>i. bread v 1 idx [i])"
  define q where "q = (\<lambda>(h :: GaussianGamma) i. \<Sum>l\<leftarrow>[0..<n]. bread (precision h) 2 idx [i, l] * V l)"
  define Q where "Q = (\<lambda>(h :: GaussianGamma). \<Sum>i\<leftarrow>[0..<n]. V i * (- 0.5 * q h i + bread (info_vec h) 1 idx [i]))"
  have inner: "q g i = q g1 i + q g2 i" if "i < n" for i
  proof -
    have "q g i = (\<Sum>l\<leftarrow>[0..<n]. bread (precision g1) 2 idx [i, l] * V l
                    + bread (precision g2) 2 idx [i, l] * V l)"
      unfolding q_def by (rule sum_list_cong_upt) (simp add: rp [OF v that] algebra_simps)
    then show ?thesis by (simp add: sum_list_add_map q_def)
  qed
  have outer: "Q g = Q g1 + Q g2"
  proof -
    have "Q g = (\<Sum>i\<leftarrow>[0..<n]. V i * (- 0.5 * q g1 i + bread (info_vec g1) 1 idx [i])
                   + V i * (- 0.5 * q g2 i + bread (info_vec g2) 1 idx [i]))"
      unfolding Q_def
      by (rule sum_list_cong_upt) (use inner ri [OF v] in \<open>simp add: algebra_simps\<close>)
    then show ?thesis by (simp add: sum_list_add_map Q_def)
  qed
  have unf: "gg_density_at h v s idx =
      bread (alpha h) 0 idx [] * ln (bread s 0 idx [])
      + (Q h - bread (beta h) 0 idx []) * bread s 0 idx [] + bread (log_normalizer h) 0 idx []" for h
    by (simp add: gg_density_at_def Q_def q_def V_def n)
  show ?thesis
    unfolding unf by (simp add: outer ra [OF v] rb [OF v] rl [OF v] algebra_simps)
qed

lemma Gamma_log_density_sem:
  assumes fl: "fits (shape (gamma_log_normalizer G)) T" and fa: "fits (shape (gamma_alpha G)) T"
    and fb: "fits (shape (gamma_beta G)) T" and fs: "fits (shape s) T"
  shows "\<exists>r. Gamma_log_density G s = Inr r \<and> canonical r \<and>
     rep T [shape (gamma_log_normalizer G), shape (gamma_alpha G), shape (gamma_beta G), shape s] [] r
       (\<lambda>idx ev. bread (gamma_log_normalizer G) 0 idx []
          + (bread (gamma_alpha G) 0 idx [] - 1) * ln (bread s 0 idx [])
          - bread (gamma_beta G) 0 idx [] * bread s 0 idx [])"
proof -
  note rl = rep_scalar_field [OF fl] and ra = rep_scalar_field [OF fa]
    and rb = rep_scalar_field [OF fb] and rs = rep_scalar_field [OF fs]
  from rep_tbin [OF rep_tmap [OF ra] rep_tmap [OF rs], of "(*)" "\<lambda>x. x - 1" ln]
  obtain t1 where t1: "tmul (ssub (gamma_alpha G) 1) (tlog s) = Inr t1"
    "rep T ([shape (gamma_alpha G)] @ [shape s]) [] t1
       (\<lambda>idx ev. (bread (gamma_alpha G) 0 idx [] - 1) * ln (bread s 0 idx []))"
    unfolding tmul_def tlog_def ssub_def by blast
  from rep_tbin [OF rl t1(2), of "(+)"]
  obtain t2 where t2: "tadd (gamma_log_normalizer G) t1 = Inr t2"
    "rep T ([shape (gamma_log_normalizer G)] @ ([shape (gamma_alpha G)] @ [shape s])) [] t2
       (\<lambda>idx ev. bread (gamma_log_normalizer G) 0 idx []
          + (bread (gamma_alpha G) 0 idx [] - 1) * ln (bread s 0 idx []))"
    unfolding tadd_def by blast
  from rep_tbin [OF rb rs, of "(*)"]
  obtain t3 where t3: "tmul (gamma_beta G) s = Inr t3"
    "rep T ([shape (gamma_beta G)] @ [shape s]) [] t3
       (\<lambda>idx ev. bread (gamma_beta G) 0 idx [] * bread s 0 idx [])"
    unfolding tmul_def by blast
  from rep_tbin [OF t2(2) t3(2), of "(-)"]
  obtain r where r: "tsub t2 t3 = Inr r" "canonical r"
    "rep T (([shape (gamma_log_normalizer G)] @ ([shape (gamma_alpha G)] @ [shape s]))
            @ ([shape (gamma_beta G)] @ [shape s])) [] r
       (\<lambda>idx ev. bread (gamma_log_normalizer G) 0 idx []
          + (bread (gamma_alpha G) 0 idx [] - 1) * ln (bread s 0 idx [])
          - bread (gamma_beta G) 0 idx [] * bread s 0 idx [])"
    unfolding tsub_def by blast
  have "Gamma_log_density G s = Inr r"
    by (simp add: Gamma_log_density_def t1(1) t2(1) t3(1) r(1))
  moreover have "rep T [shape (gamma_log_normalizer G), shape (gamma_alpha G),
      shape (gamma_beta G), shape s] [] r
       (\<lambda>idx ev. bread (gamma_log_normalizer G) 0 idx []
          + (bread (gamma_alpha G) 0 idx [] - 1) * ln (bread s 0 idx [])
          - bread (gamma_beta G) 0 idx [] * bread s 0 idx [])"
    by (rule rep_weaken [OF r(3)]) auto
  ultimately show ?thesis using r(2) by blast
qed

lemma bread_tmap_scalar:
  "valid_index T idx \<Longrightarrow> fits (shape a) T \<Longrightarrow> bread (tmap f a) 0 idx [] = f (bread a 0 idx [])"
  using bidx_valid [of "shape a" T idx]
  by (simp add: bread_def tmap_def shape_upto_def elems_mk)

lemma shape_tmap [simp]: "shape (tmap f a) = shape a"
  by (simp add: tmap_def)

lemma bread_scalar [simp]: "bread (scalar x) 0 idx [] = x"
  by (simp add: bread_def scalar_def shape_upto_def bidx_def elems_mk)

lemma shape_scalar [simp]: "shape (scalar x) = []"
  by (simp add: scalar_def)

lemma shape_vec [simp]: "shape (vec xs) = [length xs]"
  by (simp add: vec_def)

lemma shape_mat [simp]: "shape (mat k rows) = [length rows, k]"
  by (simp add: mat_def)

lemma rep_value:
  assumes "rep [] Ds [] r \<phi>"
  shows "shape r = [] \<and> elems r [] = \<phi> [] []"
proof -
  from assms obtain B where B: "shape r = B @ []" "fits B []"
    "\<forall>idx ev. valid_index [] idx \<longrightarrow> valid_index [] ev \<longrightarrow> elems r (bidx B idx @ ev) = \<phi> idx ev"
    unfolding rep_def by blast
  from B(2) have "B = []" using fits_length by fastforce
  with B show ?thesis by (auto simp: bidx_def)
qed

lemma pad_last:
  assumes "shape t = B @ [n]"
  shows "\<exists>t'. pad t [int l, int r] = Inr t' \<and> shape t' = B @ [n + l + r] \<and>
     (\<forall>b i. valid_index B b \<longrightarrow> i < n + l + r \<longrightarrow>
        elems t' (b @ [i]) = (if l \<le> i \<and> i < l + n then elems t (b @ [i - l]) else 0))"
proof -
  define t' where "t' = mk (B @ [n + l + r])
      (\<lambda>idx. case pad_src_r (rev (shape t)) [int l, int r] (rev idx) of
                     None \<Rightarrow> 0
                   | Some src \<Rightarrow> elems t (rev src))"
  have "pad_shape_r (rev (shape t)) [int l, int r] = Some (rev (B @ [n + l + r]))"
    by (simp add: assms nat_add_distrib)
  then have p: "pad t [int l, int r] = Inr t'"
    by (simp add: pad_def t'_def)
  have "elems t' (b @ [i]) = (if l \<le> i \<and> i < l + n then elems t (b @ [i - l]) else 0)"
    if "valid_index B b" "i < n + l + r" for b i
  proof -
    have "valid_index (B @ [n + l + r]) (b @ [i])" using that by simp
    moreover have "nat (int i - int l) = i - l" by arith
    ultimately show ?thesis
      by (auto simp: t'_def elems_mk assms)
  qed
  with p show ?thesis by (auto simp: t'_def)
qed

lemma pad_last2:
  assumes "shape t = B @ [m, n]"
  shows "\<exists>t'. pad t [int l, int r, int l', int r'] = Inr t' \<and>
     shape t' = B @ [m + l' + r', n + l + r] \<and>
     (\<forall>b i j. valid_index B b \<longrightarrow> i < m + l' + r' \<longrightarrow> j < n + l + r \<longrightarrow>
        elems t' (b @ [i, j]) =
          (if l' \<le> i \<and> i < l' + m \<and> l \<le> j \<and> j < l + n
           then elems t (b @ [i - l', j - l]) else 0))"
proof -
  define t' where "t' = mk (B @ [m + l' + r', n + l + r])
      (\<lambda>idx. case pad_src_r (rev (shape t)) [int l, int r, int l', int r'] (rev idx) of
                     None \<Rightarrow> 0
                   | Some src \<Rightarrow> elems t (rev src))"
  have "pad_shape_r (rev (shape t)) [int l, int r, int l', int r']
      = Some (rev (B @ [m + l' + r', n + l + r]))"
    by (simp add: assms nat_add_distrib)
  then have p: "pad t [int l, int r, int l', int r'] = Inr t'"
    by (simp add: pad_def t'_def)
  have "elems t' (b @ [i, j]) =
          (if l' \<le> i \<and> i < l' + m \<and> l \<le> j \<and> j < l + n
           then elems t (b @ [i - l', j - l]) else 0)"
    if "valid_index B b" "i < m + l' + r'" "j < n + l + r" for b i j
  proof -
    have "valid_index (B @ [m + l' + r', n + l + r]) (b @ [i, j])"
      using that valid_index_snoc_snoc [of "B @ [m + l' + r']" "n + l + r" "b @ [i]" j] by simp
    moreover have "nat (int j - int l) = j - l" by arith
    moreover have "nat (int i - int l') = i - l'" by arith
    ultimately show ?thesis
      by (auto simp: t'_def elems_mk assms)
  qed
  with p show ?thesis by (auto simp: t'_def)
qed

lemma sum_list_upt_sum: "(\<Sum>k\<leftarrow>[0..<n]. f k) = (\<Sum>k<n. (f k :: real))"
  by (simp add: interv_sum_list_conv_sum_set_nat atLeast0LessThan)

lemma chol_upper: "i < j \<Longrightarrow> chol A i j = 0"
  by (subst chol.simps) simp

lemma chol_diag: "chol A i i = sqrt (chol_pivot A i)"
  by (subst chol.simps) (simp add: chol_pivot_def)

lemma chol_diag_pos: "0 < chol_pivot A i \<Longrightarrow> 0 < chol A i i"
  by (simp add: chol_diag)

lemma chol_diag_sq: "0 < chol_pivot A i \<Longrightarrow> (chol A i i)\<^sup>2 = chol_pivot A i"
  by (simp add: chol_diag)

lemma chol_below:
  assumes "j < i" "0 < chol_pivot A j"
  shows "chol A i j * chol A j j = A i j - (\<Sum>k<j. chol A i k * chol A j k)"
proof -
  have "chol A i j = (A i j - (\<Sum>k<j. chol A i k * chol A j k)) / chol A j j"
    using assms(1) by (subst chol.simps) (simp add: sum_list_upt_sum)
  moreover have "chol A j j \<noteq> 0" using chol_diag_pos [OF assms(2)] by simp
  ultimately show ?thesis by simp
qed

lemma chol_row_sum:
  assumes "j \<le> i" "i < n"
  shows "(\<Sum>k<n. chol A i k * chol A j k) = (\<Sum>k<j. chol A i k * chol A j k) + chol A i j * chol A j j"
proof -
  have "(\<Sum>k<n. chol A i k * chol A j k) = (\<Sum>k<Suc j. chol A i k * chol A j k)"
  proof (rule sum.mono_neutral_right)
    show "{..<Suc j} \<subseteq> {..<n}" using assms by auto
    show "\<forall>k \<in> {..<n} - {..<Suc j}. chol A i k * chol A j k = 0"
      by (auto simp: chol_upper)
  qed simp
  then show ?thesis by simp
qed

lemma chol_product_le:
  assumes piv: "\<And>i. i < n \<Longrightarrow> 0 < chol_pivot A i" and "j \<le> i" "i < n"
  shows "(\<Sum>k<n. chol A i k * chol A j k) = A i j"
proof (cases "j = i")
  case True
  have "(\<Sum>k<n. chol A i k * chol A i k) = (\<Sum>k<i. chol A i k * chol A i k) + chol A i i * chol A i i"
    using assms by (intro chol_row_sum) simp_all
  also have "chol A i i * chol A i i = chol_pivot A i"
    using chol_diag_sq [OF piv [OF assms(3)]] by (simp add: power2_eq_square)
  also have "(\<Sum>k<i. chol A i k * chol A i k) + chol_pivot A i = A i i"
    by (simp add: chol_pivot_def sum_list_upt_sum power2_eq_square)
  finally show ?thesis using True by simp
next
  case False
  with assms have lt: "j < i" by simp
  then have "0 < chol_pivot A j" using piv assms by simp
  from chol_below [OF lt this] chol_row_sum [OF assms(2,3), of A]
  show ?thesis by simp
qed

lemma chol_product:
  assumes piv: "\<And>i. i < n \<Longrightarrow> 0 < chol_pivot A i"
    and sym: "\<And>i j. i < n \<Longrightarrow> j < n \<Longrightarrow> A i j = A j i"
    and "i < n" "j < n"
  shows "(\<Sum>k\<leftarrow>[0..<n]. chol A i k * chol A j k) = A i j"
proof (cases "j \<le> i")
  case True
  then show ?thesis using chol_product_le [OF piv True assms(3)] by (simp add: sum_list_upt_sum)
next
  case False
  then have le: "i \<le> j" by simp
  have "(\<Sum>k<n. chol A i k * chol A j k) = (\<Sum>k<n. chol A j k * chol A i k)"
    by (simp add: mult.commute)
  also have "\<dots> = A j i" using chol_product_le [OF piv le assms(4)] by simp
  finally show ?thesis using sym [OF assms(3,4)] by (simp add: sum_list_upt_sum)
qed

lemma fwd_solves:
  assumes low: "\<And>k. i < k \<Longrightarrow> k < n \<Longrightarrow> L i k = 0" and nz: "L i i \<noteq> 0" and "i < n"
  shows "(\<Sum>k\<leftarrow>[0..<n]. L i k * fwd L b k) = b i"
proof -
  have "(\<Sum>k<n. L i k * fwd L b k) = (\<Sum>k<Suc i. L i k * fwd L b k)"
  proof (rule sum.mono_neutral_right)
    show "{..<Suc i} \<subseteq> {..<n}" using assms by auto
    show "\<forall>k \<in> {..<n} - {..<Suc i}. L i k * fwd L b k = 0"
      using low by auto
  qed simp
  also have "\<dots> = (\<Sum>k<i. L i k * fwd L b k) + L i i * fwd L b i" by simp
  also have "fwd L b i = (b i - (\<Sum>k<i. L i k * fwd L b k)) / L i i"
    by (subst fwd.simps) (simp add: sum_list_upt_sum)
  finally show ?thesis using nz by (simp add: sum_list_upt_sum)
qed

lemma fwd_cong:
  assumes "\<And>i' k. i' \<le> i \<Longrightarrow> k \<le> i' \<Longrightarrow> L i' k = L' i' k" "\<And>i'. i' \<le> i \<Longrightarrow> b i' = b' i'"
  shows "fwd L b i = fwd L' b' i"
  using assms
proof (induction i rule: less_induct)
  case (less i)
  have "(\<Sum>k\<leftarrow>[0..<i]. L i k * fwd L b k) = (\<Sum>k\<leftarrow>[0..<i]. L' i k * fwd L' b' k)"
  proof (rule sum_list_cong_upt)
    fix k assume k: "k < i"
    have "fwd L b k = fwd L' b' k"
      using k less.prems by (intro less.IH) auto
    then show "L i k * fwd L b k = L' i k * fwd L' b' k"
      using k less.prems(1) [of i k] by simp
  qed
  then show ?case
    using less.prems(1) [of i i] less.prems(2) [of i]
    by (subst fwd.simps, subst (2) fwd.simps) simp
qed

lemma set_all_indices: "set (all_indices s) = {idx. valid_index s idx}"
proof (induction s)
  case Nil
  show ?case by auto
next
  case (Cons d ds)
  show ?case
  proof (rule set_eqI)
    fix idx
    show "idx \<in> set (all_indices (d # ds)) \<longleftrightarrow> idx \<in> {idx. valid_index (d # ds) idx}"
      using Cons by (cases idx) auto
  qed
qed

lemma rep_diagonal:
  assumes "rep T Ds [n, n] X \<phi>"
  shows "\<exists>dg. diagonal_last X = Inr dg \<and> rep T Ds [n] dg (\<lambda>idx ev. \<phi> idx [ev ! 0, ev ! 0])"
proof -
  from assms obtain B where B: "shape X = B @ [n, n]" "fits B T" "\<And>d. d \<in> set Ds \<Longrightarrow> fits d B"
    "\<And>idx ev. valid_index T idx \<Longrightarrow> valid_index [n, n] ev \<Longrightarrow> elems X (bidx B idx @ ev) = \<phi> idx ev"
    unfolding rep_def by blast
  define dg where "dg = mk (B @ [n]) (\<lambda>idx. elems X (butlast idx @ [last idx, last idx]))"
  have res: "diagonal_last X = Inr dg"
    by (simp add: diagonal_last_def B(1) dg_def Let_def nth_append)
  have "rep T Ds [n] dg (\<lambda>idx ev. \<phi> idx [ev ! 0, ev ! 0])"
  proof (rule repI [where B = B])
    show "shape dg = B @ [n]" by (simp add: dg_def)
    show "fits B T" by fact
    show "\<And>d. d \<in> set Ds \<Longrightarrow> fits d B" by fact
    fix idx ev assume v: "valid_index T idx" "valid_index [n] ev"
    from v(2) obtain i where ev: "ev = [i]" "i < n" by auto
    have "valid_index (B @ [n]) (bidx B idx @ ev)"
      using B(2) v by (intro valid_batch_event)
    then have "elems dg (bidx B idx @ ev) = elems X (bidx B idx @ [i, i])"
      by (simp add: dg_def elems_mk ev(1) butlast_append)
    also have "\<dots> = \<phi> idx [i, i]"
      using v(1) ev(2) by (intro B(4)) simp_all
    finally show "elems dg (bidx B idx @ ev) = \<phi> idx [ev ! 0, ev ! 0]"
      by (simp add: ev(1))
  qed
  with res show ?thesis by blast
qed

lemma rep_cholesky:
  assumes sP: "shape P = BP @ [n, n]" and fP: "fits BP T" and fact: "factorable P"
  shows "\<exists>L. cholesky P = Inr L \<and> canonical L \<and> shape L = shape P \<and>
     (\<forall>b i j. valid_index BP b \<longrightarrow> i < n \<longrightarrow> j < n \<longrightarrow>
        matrix_at L b i j = chol (matrix_at P b) i j) \<and>
     rep T [BP] [n, n] L (\<lambda>idx ev. chol (matrix_at P (bidx BP idx)) (ev ! 0) (ev ! 1))"
proof -
  define L where "L = mk (shape P) (\<lambda>idx. chol (matrix_at P (take (length (shape P) - 2) idx))
      (idx ! (length (shape P) - 2)) (idx ! (length (shape P) - 1)))"
  have res: "cholesky P = Inr L"
    using fact by (simp add: cholesky_def sP L_def Let_def nth_append)
  have el: "matrix_at L b i j = chol (matrix_at P b) i j"
    if "valid_index BP b" "i < n" "j < n" for b i j
  proof -
    have lb: "length b = length BP" using that(1) by (simp add: valid_index_length)
    have "valid_index (BP @ [n, n]) (b @ [i, j])"
      using that by (simp add: valid_index_append lb)
    then show ?thesis
      by (simp add: matrix_at_def L_def elems_mk sP lb nth_append)
  qed
  have "rep T [BP] [n, n] L (\<lambda>idx ev. chol (matrix_at P (bidx BP idx)) (ev ! 0) (ev ! 1))"
  proof (rule repI [where B = BP])
    show "shape L = BP @ [n, n]" by (simp add: L_def sP)
    show "fits BP T" by fact
    show "\<And>d. d \<in> set [BP] \<Longrightarrow> fits d BP" by simp
    fix idx ev assume v: "valid_index T idx" "valid_index [n, n] ev"
    from v(2) obtain i j where ev: "ev = [i, j]" "i < n" "j < n" by auto
    have "valid_index BP (bidx BP idx)" using fP v(1) by (rule bidx_valid)
    from el [OF this ev(2,3)]
    show "elems L (bidx BP idx @ ev) = chol (matrix_at P (bidx BP idx)) (ev ! 0) (ev ! 1)"
      by (simp add: matrix_at_def ev(1))
  qed
  with res el show ?thesis by (auto simp: L_def)
qed

lemma rep_triangular_solve:
  assumes "rep T Db [n, m] b \<phi>b" "rep T Da [n, n] A \<phi>A"
  shows "\<exists>X. triangular_solve b A = Inr X \<and> canonical X \<and>
     rep T (Db @ Da) [n, m] X
       (\<lambda>idx ev. fwd (\<lambda>i k. \<phi>A idx [i, k]) (\<lambda>r. \<phi>b idx [r, ev ! 1]) (ev ! 0))"
proof -
  from assms(1) obtain Bb where Bb: "shape b = Bb @ [n, m]" "fits Bb T" "\<And>d. d \<in> set Db \<Longrightarrow> fits d Bb"
    "\<And>idx ev. valid_index T idx \<Longrightarrow> valid_index [n, m] ev \<Longrightarrow> elems b (bidx Bb idx @ ev) = \<phi>b idx ev"
    unfolding rep_def by blast
  from assms(2) obtain Ba where Ba: "shape A = Ba @ [n, n]" "fits Ba T" "\<And>d. d \<in> set Da \<Longrightarrow> fits d Ba"
    "\<And>idx ev. valid_index T idx \<Longrightarrow> valid_index [n, n] ev \<Longrightarrow> elems A (bidx Ba idx @ ev) = \<phi>A idx ev"
    unfolding rep_def by blast
  from bshape_least [OF Bb(2) Ba(2)] obtain Bc where Bc: "bshape Bb Ba = Some Bc" "fits Bc T"
    by blast
  from bshape_upper [OF Bc(1)] have up: "fits Bb Bc" "fits Ba Bc" by auto
  define X where "X = mk (Bc @ [n, m])
     (\<lambda>idx. let bi = take (length Bc) idx; i = idx ! length Bc; c = idx ! Suc (length Bc)
            in fwd (matrix_at A (bidx Ba bi)) (\<lambda>r. elems b (bidx Bb bi @ [r, c])) i)"
  have res: "triangular_solve b A = Inr X"
    by (simp add: triangular_solve_def Ba(1) Bb(1) Bc(1) X_def nth_append Let_def)
  have "rep T (Db @ Da) [n, m] X
       (\<lambda>idx ev. fwd (\<lambda>i k. \<phi>A idx [i, k]) (\<lambda>r. \<phi>b idx [r, ev ! 1]) (ev ! 0))"
  proof (rule repI [where B = Bc])
    show "shape X = Bc @ [n, m]" by (simp add: X_def)
    show "fits Bc T" by fact
    show "\<And>d. d \<in> set (Db @ Da) \<Longrightarrow> fits d Bc"
      using Ba(3) Bb(3) up by (auto intro: fits_trans)
    fix idx ev assume v: "valid_index T idx" "valid_index [n, m] ev"
    from v(2) obtain i c where ev: "ev = [i, c]" "i < n" "c < m" by auto
    have lc: "length Bc \<le> length idx"
      using Bc(2) v(1) fits_length valid_index_length by fastforce
    have lbc: "length (bidx Bc idx) = length Bc" using lc by (rule length_bidx)
    have va: "valid_index (Bc @ [n, m]) (bidx Bc idx @ ev)"
      using Bc(2) v by (intro valid_batch_event)
    have ia: "bidx Ba (bidx Bc idx) = bidx Ba idx" using up(2) lc by (rule bidx_comp)
    have ib: "bidx Bb (bidx Bc idx) = bidx Bb idx" using up(1) lc by (rule bidx_comp)
    have "elems X (bidx Bc idx @ ev)
        = fwd (matrix_at A (bidx Ba idx)) (\<lambda>r. elems b (bidx Bb idx @ [r, c])) i"
      using va lbc by (simp add: X_def elems_mk ev(1) nth_append ia ib Let_def)
    also have "\<dots> = fwd (\<lambda>i k. \<phi>A idx [i, k]) (\<lambda>r. \<phi>b idx [r, c]) i"
    proof (rule fwd_cong)
      fix i' k assume "i' \<le> i" "k \<le> i'"
      then show "matrix_at A (bidx Ba idx) i' k = \<phi>A idx [i', k]"
        using ev(2) v(1) by (simp add: matrix_at_def Ba(4))
    next
      fix i' assume "i' \<le> i"
      then show "elems b (bidx Bb idx @ [i', c]) = \<phi>b idx [i', c]"
        using ev(2,3) v(1) by (simp add: Bb(4))
    qed
    finally show "elems X (bidx Bc idx @ ev)
        = fwd (\<lambda>i k. \<phi>A idx [i, k]) (\<lambda>r. \<phi>b idx [r, ev ! 1]) (ev ! 0)"
      by (simp add: ev(1))
  qed
  moreover have "canonical X" by (simp add: X_def)
  ultimately show ?thesis using res by blast
qed

lemma solve_sem:
  assumes sP: "shape P = BP @ [n, n]" and si: "shape iv = Bi @ [n]"
    and fP: "fits BP T" and fi: "fits Bi T" and fact: "factorable P"
  shows "\<exists>L sol. cholesky P = Inr L \<and> triangular_solve (unsqueeze_last iv) L = Inr sol \<and>
     rep T [BP] [n, n] L (chol_at P BP) \<and>
     rep T [Bi, BP] [n] (squeeze_last sol) (sol_at P BP iv)"
proof -
  from rep_cholesky [OF sP fP fact] obtain L where L: "cholesky P = Inr L"
    "rep T [BP] [n, n] L (\<lambda>idx ev. chol (matrix_at P (bidx BP idx)) (ev ! 0) (ev ! 1))"
    by blast
  have rL: "rep T [BP] [n, n] L (chol_at P BP)"
    using L(2) by (simp add: chol_at_def [abs_def])
  have ri: "rep T [Bi] [n] iv (\<lambda>idx ev. bread iv 1 idx ev)"
    using si fi by (intro rep_field) simp_all
  have ru: "rep T [Bi] [n, 1] (unsqueeze_last iv) (\<lambda>idx ev. bread iv 1 idx (butlast ev))"
    using rep_unsqueeze [OF ri] by simp
  from rep_triangular_solve [OF ru rL] obtain sol where
    sol: "triangular_solve (unsqueeze_last iv) L = Inr sol"
    "rep T ([Bi] @ [BP]) ([n] @ [1]) sol
       (\<lambda>idx ev. fwd (\<lambda>i k. chol_at P BP idx [i, k])
                    (\<lambda>r. bread iv 1 idx (butlast [r, ev ! 1])) (ev ! 0))"
    by auto
  have sol': "rep T [Bi, BP] ([n] @ [1]) sol
       (\<lambda>idx ev. fwd (\<lambda>i k. chol_at P BP idx [i, k])
                    (\<lambda>r. bread iv 1 idx (butlast [r, ev ! 1])) (ev ! 0))"
    using sol(2) by simp
  have "rep T [Bi, BP] [n] (squeeze_last sol) (sol_at P BP iv)"
    by (rule rep_cong [OF rep_squeeze [OF sol']]) (auto simp: sol_at_def)
  with L(1) sol(1) rL show ?thesis by blast
qed

lemma beta_sem:
  assumes rw: "rep T Ds [n] w \<phi>w" and fb: "fits (shape b) T"
  shows "\<exists>b'. tsub b (smul 0.5 (sum_last (tpow2 w))) = Inr b' \<and> canonical b' \<and>
     rep T ([shape b] @ Ds) [] b'
       (\<lambda>idx ev. bread b 0 idx [] - 0.5 * (\<Sum>k\<leftarrow>[0..<n]. (\<phi>w idx [k])\<^sup>2))"
proof -
  have r1: "rep T Ds ([] @ [n]) (tpow2 w) (\<lambda>idx ev. (\<phi>w idx ev)\<^sup>2)"
    using rep_tmap [OF rw, of "\<lambda>x. x\<^sup>2"] by (simp add: tpow2_def)
  have r2: "rep T Ds [] (smul 0.5 (sum_last (tpow2 w)))
      (\<lambda>idx ev. 0.5 * (\<Sum>k\<leftarrow>[0..<n]. (\<phi>w idx [k])\<^sup>2))"
    unfolding smul_def
    by (rule rep_cong [OF rep_tmap [OF rep_sum_last [OF r1]]]) simp
  from rep_tbin [OF rep_scalar_field [OF fb] r2, of "(-)"]
  show ?thesis unfolding tsub_def by blast
qed

lemma log_normalizer_sem:
  assumes rL: "rep T Ds [n, n] L \<phi>L" and fl: "fits (shape l) T"
  shows "\<exists>dg l'. diagonal_last L = Inr dg \<and>
     tadd l (rsub c (sum_last (tlog dg))) = Inr l' \<and> canonical l' \<and>
     rep T ([shape l] @ Ds) [] l'
       (\<lambda>idx ev. bread l 0 idx [] + (c - (\<Sum>i\<leftarrow>[0..<n]. ln (\<phi>L idx [i, i]))))"
proof -
  from rep_diagonal [OF rL] obtain dg where dg: "diagonal_last L = Inr dg"
    "rep T Ds [n] dg (\<lambda>idx ev. \<phi>L idx [ev ! 0, ev ! 0])"
    by blast
  have r1: "rep T Ds ([] @ [n]) (tlog dg) (\<lambda>idx ev. ln (\<phi>L idx [ev ! 0, ev ! 0]))"
    using rep_tmap [OF dg(2), of ln] by (simp add: tlog_def)
  have r2: "rep T Ds [] (rsub c (sum_last (tlog dg)))
      (\<lambda>idx ev. c - (\<Sum>i\<leftarrow>[0..<n]. ln (\<phi>L idx [i, i])))"
    unfolding rsub_def
    by (rule rep_cong [OF rep_tmap [OF rep_sum_last [OF r1]]]) simp
  from rep_tbin [OF rep_scalar_field [OF fl] r2, of "(+)"] dg(1)
  show ?thesis unfolding tadd_def by blast
qed

lemma factorableD:
  assumes "factorable P" "shape P = BP @ [n, n]" "valid_index BP b" "i < n"
  shows "0 < chol_pivot (matrix_at P b) i"
  using assms by (auto simp: factorable_def list_all_iff set_all_indices)

lemma symmetric_last2D:
  assumes "symmetric_last2 P" "shape P = BP @ [n, n]" "valid_index BP b" "i < n" "j < n"
  shows "matrix_at P b i j = matrix_at P b j i"
  using assms by (auto simp: symmetric_last2_def list_all_iff set_all_indices)

lemma lower_factor_chol:
  assumes sP: "shape P = BP @ [n, n]" and sL: "shape L = shape P"
    and el: "\<And>b i j. valid_index BP b \<Longrightarrow> i < n \<Longrightarrow> j < n \<Longrightarrow>
        matrix_at L b i j = chol (matrix_at P b) i j"
    and fact: "factorable P" and sym: "symmetric_last2 P"
  shows "lower_factor_of L P"
proof -
  have main: "(i < j \<longrightarrow> matrix_at L b i j = 0) \<and> 0 < matrix_at L b i i \<and>
        (\<Sum>k\<leftarrow>[0..<n]. matrix_at L b i k * matrix_at L b j k) = matrix_at P b i j"
    if v: "valid_index BP b" and i: "i < n" and j: "j < n" for b i j
  proof (intro conjI impI)
    assume "i < j"
    then show "matrix_at L b i j = 0" using el [OF v i j] by (simp add: chol_upper)
  next
    show "0 < matrix_at L b i i"
      using el [OF v i i] chol_diag_pos [OF factorableD [OF fact sP v i]] by simp
  next
    have "(\<Sum>k\<leftarrow>[0..<n]. matrix_at L b i k * matrix_at L b j k)
        = (\<Sum>k\<leftarrow>[0..<n]. chol (matrix_at P b) i k * chol (matrix_at P b) j k)"
      by (rule sum_list_cong_upt) (simp add: el [OF v i] el [OF v j])
    also have "\<dots> = matrix_at P b i j"
    proof (rule chol_product [OF _ _ i j])
      fix i' assume "i' < n"
      then show "0 < chol_pivot (matrix_at P b) i'" by (rule factorableD [OF fact sP v])
    next
      fix i' j' assume "i' < n" "j' < n"
      then show "matrix_at P b i' j' = matrix_at P b j' i'"
        by (rule symmetric_last2D [OF sym sP v])
    qed
    finally show "(\<Sum>k\<leftarrow>[0..<n]. matrix_at L b i k * matrix_at L b j k) = matrix_at P b i j" .
  qed
  have *: "shape_upto 2 (shape P) = BP" "last (shape P) = n"
    by (simp_all add: sP)
  show ?thesis
    unfolding lower_factor_of_def * using main sL by blast
qed

lemma solves_lower_fwd:
  assumes sP: "shape P = BP @ [n, n]" and si: "shape iv = Bi @ [n]"
    and bw: "bshape Bi BP = Some Bw" and fact: "factorable P"
    and sL: "shape L = shape P"
    and rL: "rep Bw [BP] [n, n] L (chol_at P BP)"
    and rw: "rep Bw [Bi, BP] [n] w (sol_at P BP iv)"
  shows "solves_lower L w iv \<and> shape w = Bw @ [n]"
proof -
  from bshape_upper [OF bw] have up: "fits Bi Bw" "fits BP Bw" by auto
  define B where "B = shape_upto 1 (shape w)"
  from rep_shape [OF rw] have B: "shape w = B @ [n]" "fits B Bw" "fits Bi B" "fits BP B"
    by (simp_all add: B_def)
  from bshape_least [OF B(3,4)] bw have "fits Bw B" by auto
  with B(2) have BB: "B = Bw" by (rule fits_antisym)
  have "(\<Sum>k\<leftarrow>[0..<n]. bread L 2 idx [i, k] * bread w 1 idx [k]) = bread iv 1 idx [i]"
    if v: "valid_index Bw idx" and i: "i < n" for idx i
  proof -
    have vb: "valid_index BP (bidx BP idx)" using up(2) v by (rule bidx_valid)
    have L: "bread L 2 idx [i', k] = chol_at P BP idx [i', k]" if "i' < n" "k < n" for i' k
      using rep_bread [OF rL v, of "[i', k]"] that by (simp add: numeral_2_eq_2)
    have W: "bread w 1 idx [k] = sol_at P BP iv idx [k]" if "k < n" for k
      using rep_bread [OF rw v, of "[k]"] that by simp
    have "(\<Sum>k\<leftarrow>[0..<n]. bread L 2 idx [i, k] * bread w 1 idx [k])
        = (\<Sum>k\<leftarrow>[0..<n]. chol_at P BP idx [i, k]
             * fwd (\<lambda>i k. chol_at P BP idx [i, k]) (\<lambda>r. bread iv 1 idx [r]) k)"
      by (rule sum_list_cong_upt) (use L [OF i] W in \<open>simp add: sol_at_def\<close>)
    also have "\<dots> = bread iv 1 idx [i]"
    proof (rule fwd_solves [OF _ _ i])
      fix k assume "i < k"
      then show "chol_at P BP idx [i, k] = 0" by (simp add: chol_at_def chol_upper)
    next
      show "chol_at P BP idx [i, i] \<noteq> 0"
        using chol_diag_pos [OF factorableD [OF fact sP vb i]] by (simp add: chol_at_def)
    qed
    finally show ?thesis .
  qed
  then show ?thesis
    using B(1) bw by (simp add: solves_lower_def si sP sL BB B_def [symmetric])
qed

lemma factorable_scenario: "factorable (precision gg_scenario)"
  by (simp add: factorable_def gg_scenario_def shape_upto_def chol_pivot_def matrix_at_def
      mat_def elems_mk)

lemma symmetric_scenario: "symmetric_last2 (precision gg_scenario)"
  by (simp add: symmetric_last2_def gg_scenario_def shape_upto_def)

lemma bindE_no_assert:
  assumes "m \<noteq> Inl AssertionError" "\<And>x. m = Inr x \<Longrightarrow> f x \<noteq> Inl AssertionError"
  shows "bindE m f \<noteq> Inl AssertionError"
  using assms by (cases m) auto

lemma resolve_no_assert: "resolve ix ds \<noteq> Inl AssertionError"
proof (induction ix ds rule: resolve.induct)
  case (2 "is" ds)
  then show ?case by (cases "resolve is ds") auto
next
  case (3 "is" ds)
  then show ?case
    by (cases "resolve is (drop (length ds - length (filter consuming is)) ds)")
      (auto simp: Let_def)
next
  case (5 i "is" d ds)
  then show ?case by (cases "resolve is ds") (auto simp: Let_def)
next
  case (7 a b c "is" d ds)
  then show ?case by (cases "resolve is ds") (auto simp: Let_def)
qed auto

lemma getitem_no_assert [simp]: "getitem t ix \<noteq> Inl AssertionError"
  unfolding getitem_def by (rule bindE_no_assert) (simp_all add: resolve_no_assert)

lemma tbin_no_assert [simp]: "tbin f a b \<noteq> Inl AssertionError"
  by (simp add: tbin_def split: option.splits)

lemma tops_no_assert [simp]:
  "tadd a b \<noteq> Inl AssertionError" "tsub a b \<noteq> Inl AssertionError"
  "tmul a b \<noteq> Inl AssertionError"
  by (simp_all add: tadd_def tsub_def tmul_def)

lemma matmul_no_assert [simp]: "matmul a b \<noteq> Inl AssertionError"
  by (simp add: matmul_def Let_def split: option.splits)

lemma expand_no_assert [simp]: "expand t sizes \<noteq> Inl AssertionError"
  by (simp add: expand_def split: option.splits)

lemma reshape_no_assert [simp]: "reshape t sizes \<noteq> Inl AssertionError"
  by (simp add: reshape_def split: option.splits)

lemma pad_no_assert [simp]: "pad t pads \<noteq> Inl AssertionError"
  by (simp add: pad_def split: option.splits)

lemma torch_cat_no_assert [simp]: "torch_cat ts d \<noteq> Inl AssertionError"
  by (simp add: torch_cat_def Let_def split: list.splits)

lemma index_last_no_assert [simp]: "index_last t perm \<noteq> Inl AssertionError"
  by (simp add: index_last_def Let_def)

lemma index_penult_no_assert [simp]: "index_penult t perm \<noteq> Inl AssertionError"
  by (simp add: index_penult_def Let_def)

lemma size_last_no_assert [simp]: "size_last t \<noteq> Inl AssertionError"
  by (simp add: size_last_def)

lemma dim_of_no_assert [simp]: "dim_of g \<noteq> Inl AssertionError"
  by (simp add: dim_of_def)

lemma broadcast_from_no_assert: "broadcast_from acc ss \<noteq> Inl AssertionError"
  by (induction ss arbitrary: acc) (auto split: option.splits)

lemma batch_shape_no_assert [simp]: "batch_shape g \<noteq> Inl AssertionError"
  by (simp add: batch_shape_def broadcast_shape_def broadcast_from_no_assert)

lemma init_ok:
  "shape iv = Bi @ [n] \<Longrightarrow> shape P = BP @ [n, n] \<Longrightarrow>
   GaussianGamma_init [l, iv, P, a, b] \<noteq> Inl AssertionError"
  by (simp add: ndim_def shape_from_def)










lemma tbin_trailing:
  assumes "tbin f a b = Inr r" "shape a = Ba @ E" "shape b = Bb @ E"
  shows "\<exists>B. shape r = B @ E"
  using assms by (auto simp: tbin_def bshape_append split: option.splits)

lemma tadd_trailing:
  assumes "tadd a b = Inr r" "shape a = Ba @ E" "shape b = Bb @ E"
  shows "\<exists>B. shape r = B @ E"
  using assms unfolding tadd_def by (rule tbin_trailing)




lemma shape_unsqueeze [simp]: "shape (unsqueeze_last t) = shape t @ [1]"
  by (simp add: unsqueeze_last_def)


lemma sel_shape_full [simp]: "sel_shape (map (Range 0 (Suc 0)) ds) = ds"
  by (induction ds) auto




lemma full_slice_count [simp]:
  "length (filter consuming (ix @ replicate k (Slice None None None)))
     = length (filter consuming ix) + k"
  by (induction k) auto









lemma clamp_None [simp]: "clamp_bound None d n = d"
  by (simp add: clamp_bound_def)


lemma init_trailing:
  "GaussianGamma_init [l, iv, P, a, b] = Inr g \<longleftrightarrow>
     gg_inv \<lparr>log_normalizer = l, info_vec = iv, precision = P, alpha = a, beta = b\<rparr> \<and>
     g = \<lparr>log_normalizer = l, info_vec = iv, precision = P, alpha = a, beta = b\<rparr>"
  by (auto simp: gg_inv_def)








lemma add_ok:
  assumes "gg_inv g" "gg_inv other" "dim_of g = Inr n" "dim_of other = Inr n"
  shows "add g other \<noteq> Inl AssertionError"
proof -
  note s = gg_inv_shapes [OF assms(1,3)] and s' = gg_inv_shapes [OF assms(2,4)]
  show ?thesis
    unfolding add_def assms(3,4) bindE_simps
  proof (simp del: GaussianGamma_init.simps, intro bindE_no_assert)
    fix l iv P a b
    assume "tadd (info_vec g) (info_vec other) = Inr iv"
      "tadd (precision g) (precision other) = Inr P"
    from tadd_trailing [OF this(1) s(1) s'(1)] tadd_trailing [OF this(2) s(2) s'(2)]
    obtain B1 B2 where "shape iv = B1 @ [n]" "shape P = B2 @ [n, n]" by blast
    then show "GaussianGamma_init [l, iv, P, a, b] \<noteq> Inl AssertionError"
      by (rule init_ok)
  qed simp_all
qed


text \<open>Whatever an operation returns was built by the constructor and so satisfies the
  shape invariant.\<close>

lemma init_result_inv: "GaussianGamma_init args = Inr g' \<Longrightarrow> gg_inv g'"
  by (induction args rule: GaussianGamma_init.induct) (auto simp: gg_inv_def split: if_splits)

lemma bindE_result:
  assumes "bindE m f = Inr r" "\<And>x. f x = Inr r \<Longrightarrow> Q"
  shows Q
  using assms by (cases m) auto

lemma expand_gg_result: "expand_gg g bs = Inr g' \<Longrightarrow> gg_inv g'"
  unfolding expand_gg_def by (elim bindE_result) (rule init_result_inv)

lemma reshape_gg_result: "reshape_gg g bs = Inr g' \<Longrightarrow> gg_inv g'"
  unfolding reshape_gg_def by (elim bindE_result) (rule init_result_inv)

lemma getitem_gg_result: "getitem_gg g ix = Inr g' \<Longrightarrow> gg_inv g'"
  unfolding getitem_gg_def by (elim bindE_result) (rule init_result_inv)

lemma cat_result: "cat ps axis = Inr g' \<Longrightarrow> gg_inv g'"
  unfolding cat_def by (elim bindE_result) (rule init_result_inv)

lemma event_pad_result: "event_pad g l r = Inr g' \<Longrightarrow> gg_inv g'"
  unfolding event_pad_def by (elim bindE_result) (rule init_result_inv)

lemma event_permute_result: "event_permute g perm = Inr g' \<Longrightarrow> gg_inv g'"
  unfolding event_permute_def
  by (elim bindE_result) (auto split: if_splits elim!: bindE_result intro: init_result_inv
      simp del: GaussianGamma_init.simps)


lemma condition_result: "condition g v = Inr g' \<Longrightarrow> gg_inv g'"
  unfolding condition_def Let_def
  by (elim bindE_result) (auto split: if_splits elim!: bindE_result intro: init_result_inv
      simp del: GaussianGamma_init.simps)

text \<open>Tensors of shapes \<open>()\<close>, \<open>(1,)\<close> and \<open>(1, 1)\<close>, entry by entry, for the evaluation of
  \<open>condition\<close>, \<open>log_density\<close> and \<open>marginalize\<close> at an instance of event dimension 2.\<close>

lemma bindE_never: "(\<And>x. f x \<noteq> Inr r) \<Longrightarrow> bindE m f \<noteq> Inr r"
  by (cases m) simp_all

lemma tbin_11: "shape a = [1, 1] \<Longrightarrow> shape b = [1, 1] \<Longrightarrow> \<exists>t. tbin f a b = Inr t \<and> shape t = [1, 1]"
  by (simp add: tbin_def bshape_def)

lemma tbin_1: "shape a = [1] \<Longrightarrow> shape b = [1] \<Longrightarrow> \<exists>t. tbin f a b = Inr t \<and> shape t = [1]"
  by (simp add: tbin_def bshape_def)

lemma tbin_0: "shape a = [] \<Longrightarrow> shape b = [] \<Longrightarrow> \<exists>t. tbin f a b = Inr t \<and> shape t = []"
  by (simp add: tbin_def bshape_def)

lemma matmul_11: "shape a = [1, 1] \<Longrightarrow> shape b = [1, 1] \<Longrightarrow> \<exists>t. matmul a b = Inr t \<and> shape t = [1, 1]"
  by (simp add: matmul_def bshape_def shape_upto_def Let_def)

lemma solve_11: "shape a = [1, 1] \<Longrightarrow> shape b = [1, 1] \<Longrightarrow>
    \<exists>t. triangular_solve b a = Inr t \<and> shape t = [1, 1]"
  by (simp add: triangular_solve_def bshape_def shape_upto_def Let_def)

lemma transpose_11: "shape a = [1, 1] \<Longrightarrow> \<exists>t. transpose_last a = Inr t \<and> shape t = [1, 1]"
  by (simp add: transpose_last_def Let_def)

lemma diagonal_11: "shape a = [1, 1] \<Longrightarrow> \<exists>t. diagonal_last a = Inr t \<and> shape t = [1]"
  by (simp add: diagonal_last_def Let_def)

lemma cholesky_11:
  "shape a = [1, 1] \<Longrightarrow> 0 < elems a [0, 0] \<Longrightarrow> \<exists>t. cholesky a = Inr t \<and> shape t = [1, 1]"
  by (simp add: cholesky_def factorable_def shape_upto_def chol_pivot_def matrix_at_def Let_def)

lemma P_aa_dim2:
  "\<exists>t. getitem (precision gg_dim2)
         [Ellipsis, Slice (Some 1) (Some (int 2 - 0)) None, Slice (Some 1) (Some (int 2 - 0)) None] = Inr t \<and>
       shape t = [1, 1]"
  by (simp add: getitem_def gg_dim2_def mat_def clamp_bound_def Let_def)

lemma P_ba_dim2:
  "\<exists>t. getitem (precision gg_dim2)
         [Ellipsis, Slice None (Some 1) None, Slice (Some 1) (Some (int 2 - 0)) None] = Inr t \<and>
       shape t = [1, 1]"
  by (simp add: getitem_def gg_dim2_def mat_def clamp_bound_def Let_def)

lemma P_bb_dim2:
  "\<exists>t. getitem (precision gg_dim2)
         [Ellipsis, Slice None (Some 1) None, Slice None (Some 1) None] = Inr t \<and>
       shape t = [1, 1] \<and> elems t [0, 0] = 1"
  by (simp add: getitem_def gg_dim2_def mat_def clamp_bound_def Let_def elems_mk)

lemma info_a_dim2:
  "\<exists>t. getitem (info_vec gg_dim2) [Ellipsis, Slice (Some 1) (Some (int 2 - 0)) None] = Inr t \<and>
       shape t = [1]"
  by (simp add: getitem_def gg_dim2_def vec_def clamp_bound_def Let_def)

lemma info_b_dim2:
  "\<exists>t. getitem (info_vec gg_dim2) [Ellipsis, Slice None (Some 1) None] = Inr t \<and>
       shape t = [1]"
  by (simp add: getitem_def gg_dim2_def vec_def clamp_bound_def Let_def)

lemma tbin_vec1:
  "shape a = [1] \<Longrightarrow> shape b = [1] \<Longrightarrow>
   \<exists>t. tbin f a b = Inr t \<and> shape t = [1] \<and> elems t [0] = f (elems a [0]) (elems b [0])"
  by (simp add: tbin_def bshape_def bidx_def elems_mk)

lemma tbin_scalar:
  "shape a = [] \<Longrightarrow> shape b = [] \<Longrightarrow>
   \<exists>t. tbin f a b = Inr t \<and> shape t = [] \<and> elems t [] = f (elems a []) (elems b [])"
  by (simp add: tbin_def bshape_def bidx_def elems_mk)

lemma matmul_mat1:
  "shape a = [1, 1] \<Longrightarrow> shape b = [1, 1] \<Longrightarrow>
   \<exists>t. matmul a b = Inr t \<and> shape t = [1, 1] \<and> elems t [0, 0] = elems a [0, 0] * elems b [0, 0]"
  by (simp add: matmul_def bshape_def shape_upto_def bidx_def Let_def elems_mk)

lemma sum_last_vec1:
  "shape a = [1] \<Longrightarrow> shape (sum_last a) = [] \<and> elems (sum_last a) [] = elems a [0]"
  by (simp add: sum_last_def elems_mk)

lemma squeeze_mat1:
  "shape a = [1, 1] \<Longrightarrow> shape (squeeze_last a) = [1] \<and> elems (squeeze_last a) [0] = elems a [0, 0]"
  by (simp add: squeeze_last_def elems_mk)

lemma unsqueeze_vec1:
  "shape a = [1] \<Longrightarrow> shape (unsqueeze_last a) = [1, 1] \<and> elems (unsqueeze_last a) [0, 0] = elems a [0]"
  by (simp add: unsqueeze_last_def elems_mk)

lemma tmap_vec1:
  "shape a = [1] \<Longrightarrow> shape (tmap f a) = [1] \<and> elems (tmap f a) [0] = f (elems a [0])"
  by (simp add: tmap_def elems_mk)

lemma tmap_scalar:
  "shape a = [] \<Longrightarrow> shape (tmap f a) = [] \<and> elems (tmap f a) [] = f (elems a [])"
  by (simp add: tmap_def elems_mk)

lemma smul_vec1:
  "shape a = [1] \<Longrightarrow> shape (smul c a) = [1] \<and> elems (smul c a) [0] = c * elems a [0]"
  by (simp add: smul_def tmap_def elems_mk)

lemma smul_scalar:
  "shape a = [] \<Longrightarrow> shape (smul c a) = [] \<and> elems (smul c a) [] = c * elems a []"
  by (simp add: smul_def tmap_def elems_mk)

lemma tlog_scalar:
  "shape a = [] \<Longrightarrow> shape (tlog a) = [] \<and> elems (tlog a) [] = ln (elems a [])"
  by (simp add: tlog_def tmap_def elems_mk)

lemma log_density_dim1:
  assumes sP: "shape (precision g) = [1, 1]" and si: "shape (info_vec g) = [1]"
    and sl: "shape (log_normalizer g) = []" and sa: "shape (alpha g) = []"
    and sb: "shape (beta g) = []" and sv: "shape v = [1]" and ss: "shape s = []"
  shows "\<exists>r. log_density g v s = Inr r \<and> shape r = [] \<and>
     elems r [] = elems (alpha g) [] * ln (elems s [])
       + (elems v [0] * (- 0.5 * (elems (precision g) [0, 0] * elems v [0]) + elems (info_vec g) [0])
          - elems (beta g) []) * elems s []
       + elems (log_normalizer g) []"
proof -
  have k: "size_last v = Inr 1" by (simp add: size_last_def sv)
  note uv = unsqueeze_vec1 [OF sv]
  from matmul_mat1 [OF sP uv [THEN conjunct1]] uv obtain pv where pv:
    "matmul (precision g) (unsqueeze_last v) = Inr pv" "shape pv = [1, 1]"
    "elems pv [0, 0] = elems (precision g) [0, 0] * elems v [0]" by auto
  note sq = squeeze_mat1 [OF pv(2)]
  note sm = smul_vec1 [OF sq [THEN conjunct1], of "- 0.5"]
  from tbin_vec1 [OF sm [THEN conjunct1] si, of "(+)"] sm sq pv(3) obtain r1 where r1:
    "tadd (smul (- 0.5) (squeeze_last pv)) (info_vec g) = Inr r1" "shape r1 = [1]"
    "elems r1 [0] = - 0.5 * (elems (precision g) [0, 0] * elems v [0]) + elems (info_vec g) [0]"
    unfolding tadd_def by auto
  from tbin_vec1 [OF sv r1(2), of "(*)"] r1(3) obtain r2 where r2:
    "tmul v r1 = Inr r2" "shape r2 = [1]"
    "elems r2 [0] = elems v [0] * (- 0.5 * (elems (precision g) [0, 0] * elems v [0]) + elems (info_vec g) [0])"
    unfolding tmul_def by auto
  note ls = tlog_scalar [OF ss]
  from tbin_scalar [OF sa ls [THEN conjunct1], of "(*)"] ls obtain t1 where t1:
    "tmul (alpha g) (tlog s) = Inr t1" "shape t1 = []"
    "elems t1 [] = elems (alpha g) [] * ln (elems s [])"
    unfolding tmul_def by auto
  note s2 = sum_last_vec1 [OF r2(2)]
  from tbin_scalar [OF s2 [THEN conjunct1] sb, of "(-)"] s2 r2(3) obtain t2 where t2:
    "tsub (sum_last r2) (beta g) = Inr t2" "shape t2 = []"
    "elems t2 [] = elems v [0] * (- 0.5 * (elems (precision g) [0, 0] * elems v [0]) + elems (info_vec g) [0])
       - elems (beta g) []"
    unfolding tsub_def by auto
  from tbin_scalar [OF t2(2) ss, of "(*)"] t2(3) obtain t3 where t3:
    "tmul t2 s = Inr t3" "shape t3 = []"
    "elems t3 [] = (elems v [0] * (- 0.5 * (elems (precision g) [0, 0] * elems v [0]) + elems (info_vec g) [0])
       - elems (beta g) []) * elems s []"
    unfolding tmul_def by auto
  from tbin_scalar [OF t1(2) t3(2), of "(+)"] t1(3) t3(3) obtain t4 where t4:
    "tadd t1 t3 = Inr t4" "shape t4 = []"
    "elems t4 [] = elems (alpha g) [] * ln (elems s [])
       + (elems v [0] * (- 0.5 * (elems (precision g) [0, 0] * elems v [0]) + elems (info_vec g) [0])
       - elems (beta g) []) * elems s []"
    unfolding tadd_def by auto
  from tbin_scalar [OF t4(2) sl, of "(+)"] t4(3) obtain r where r:
    "tadd t4 (log_normalizer g) = Inr r" "shape r = []"
    "elems r [] = elems (alpha g) [] * ln (elems s [])
       + (elems v [0] * (- 0.5 * (elems (precision g) [0, 0] * elems v [0]) + elems (info_vec g) [0])
       - elems (beta g) []) * elems s []
       + elems (log_normalizer g) []"
    unfolding tadd_def by auto
  show ?thesis
    unfolding log_density_def k bindE_simps
    using pv(1) r1(1) r2(1) t1(1) t2(1) t3(1) t4(1) r by simp
qed

lemma condition_dim2:
  "\<exists>g'. condition gg_dim2 (vec [1]) = Inr g' \<and>
     shape (precision g') = [1, 1] \<and> shape (info_vec g') = [1] \<and>
     shape (log_normalizer g') = [] \<and> shape (alpha g') = [] \<and> shape (beta g') = [] \<and>
     elems (precision g') [0, 0] = 1 \<and> elems (info_vec g') [0] = 0 \<and>
     elems (log_normalizer g') [] = 0 \<and> elems (alpha g') [] = 1 \<and> elems (beta g') [] = 1 / 2"
proof -
  let ?v = "vec [1]"
  have sv: "shape ?v = [1]" "elems ?v [0] = 1"
    by (simp_all add: vec_def elems_mk)
  have k: "size_last ?v = Inr 1" by (simp add: size_last_def)
  have d: "size_last (info_vec gg_dim2) = Inr 2" "dim_of gg_dim2 = Inr 2"
    by (simp_all add: dim_of_def size_last_def gg_dim2_def)
  have fld: "shape (log_normalizer gg_dim2) = []" "elems (log_normalizer gg_dim2) [] = 0"
    "shape (alpha gg_dim2) = []" "elems (alpha gg_dim2) [] = 1"
    "shape (beta gg_dim2) = []" "elems (beta gg_dim2) [] = 1"
    by (simp_all add: gg_dim2_def scalar_def elems_mk)
  have "\<exists>t. getitem (info_vec gg_dim2) [Ellipsis, Slice None (Some (int 2 - int 1)) None] = Inr t \<and>
       shape t = [1] \<and> elems t [0] = 0"
    by (simp add: getitem_def gg_dim2_def vec_def clamp_bound_def Let_def elems_mk)
  then obtain info_a where info_a:
    "getitem (info_vec gg_dim2) [Ellipsis, Slice None (Some (int 2 - int 1)) None] = Inr info_a"
    "shape info_a = [1]" "elems info_a [0] = 0" by blast
  have "\<exists>t. getitem (info_vec gg_dim2) [Ellipsis, Slice (Some (int 2 - int 1)) None None] = Inr t \<and>
       shape t = [1] \<and> elems t [0] = 0"
    by (simp add: getitem_def gg_dim2_def vec_def clamp_bound_def Let_def elems_mk)
  then obtain info_b where info_b:
    "getitem (info_vec gg_dim2) [Ellipsis, Slice (Some (int 2 - int 1)) None None] = Inr info_b"
    "shape info_b = [1]" "elems info_b [0] = 0" by blast
  have "\<exists>t. getitem (precision gg_dim2)
         [Ellipsis, Slice None (Some (int 2 - int 1)) None, Slice None (Some (int 2 - int 1)) None] = Inr t \<and>
       shape t = [1, 1] \<and> elems t [0, 0] = 1"
    by (simp add: getitem_def gg_dim2_def mat_def clamp_bound_def Let_def elems_mk)
  then obtain P_aa where P_aa:
    "getitem (precision gg_dim2)
         [Ellipsis, Slice None (Some (int 2 - int 1)) None, Slice None (Some (int 2 - int 1)) None] = Inr P_aa"
    "shape P_aa = [1, 1]" "elems P_aa [0, 0] = 1" by blast
  have "\<exists>t. getitem (precision gg_dim2)
         [Ellipsis, Slice None (Some (int 2 - int 1)) None, Slice (Some (int 2 - int 1)) None None] = Inr t \<and>
       shape t = [1, 1] \<and> elems t [0, 0] = 0"
    by (simp add: getitem_def gg_dim2_def mat_def clamp_bound_def Let_def elems_mk)
  then obtain P_ab where P_ab:
    "getitem (precision gg_dim2)
         [Ellipsis, Slice None (Some (int 2 - int 1)) None, Slice (Some (int 2 - int 1)) None None] = Inr P_ab"
    "shape P_ab = [1, 1]" "elems P_ab [0, 0] = 0" by blast
  have "\<exists>t. getitem (precision gg_dim2)
         [Ellipsis, Slice (Some (int 2 - int 1)) None None, Slice (Some (int 2 - int 1)) None None] = Inr t \<and>
       shape t = [1, 1] \<and> elems t [0, 0] = 1"
    by (simp add: getitem_def gg_dim2_def mat_def clamp_bound_def Let_def elems_mk)
  then obtain P_bb where P_bb:
    "getitem (precision gg_dim2)
         [Ellipsis, Slice (Some (int 2 - int 1)) None None, Slice (Some (int 2 - int 1)) None None] = Inr P_bb"
    "shape P_bb = [1, 1]" "elems P_bb [0, 0] = 1" by blast
  note uv = unsqueeze_vec1 [OF sv(1)]
  from matmul_mat1 [OF P_ab(2) uv [THEN conjunct1]] uv P_ab(3) sv(2) obtain m1 where m1:
    "matmul P_ab (unsqueeze_last ?v) = Inr m1" "shape m1 = [1, 1]" "elems m1 [0, 0] = 0" by auto
  note q1 = squeeze_mat1 [OF m1(2)]
  from tbin_vec1 [OF info_a(2) q1 [THEN conjunct1], of "(-)"] q1 m1(3) info_a(3) obtain iv' where iv':
    "tsub info_a (squeeze_last m1) = Inr iv'" "shape iv' = [1]" "elems iv' [0] = 0"
    unfolding tsub_def by auto
  from matmul_mat1 [OF P_bb(2) uv [THEN conjunct1]] uv P_bb(3) sv(2) obtain m2 where m2:
    "matmul P_bb (unsqueeze_last ?v) = Inr m2" "shape m2 = [1, 1]" "elems m2 [0, 0] = 1" by auto
  note q2 = squeeze_mat1 [OF m2(2)]
  from tbin_vec1 [OF q2 [THEN conjunct1] sv(1), of "(*)"] q2 m2(3) sv(2) obtain q where q:
    "tmul (squeeze_last m2) ?v = Inr q" "shape q = [1]" "elems q [0] = 1"
    unfolding tmul_def by auto
  note sq = sum_last_vec1 [OF q(2)]
  note hq = smul_scalar [OF sq [THEN conjunct1], of "0.5"]
  from tbin_scalar [OF fld(5) hq [THEN conjunct1], of "(-)"] hq sq q(3) fld(6) obtain b1 where b1:
    "tsub (beta gg_dim2) (smul 0.5 (sum_last q)) = Inr b1" "shape b1 = []" "elems b1 [] = 1 / 2"
    unfolding tsub_def by auto
  from tbin_vec1 [OF sv(1) info_b(2), of "(*)"] info_b(3) obtain l where l:
    "tmul ?v info_b = Inr l" "shape l = [1]" "elems l [0] = 0"
    unfolding tmul_def by auto
  note sl = sum_last_vec1 [OF l(2)]
  from tbin_scalar [OF b1(2) sl [THEN conjunct1], of "(+)"] sl l(3) b1(3) obtain b' where b':
    "tadd b1 (sum_last l) = Inr b'" "shape b' = []" "elems b' [] = 1 / 2"
    unfolding tadd_def by auto
  have init: "GaussianGamma_init [log_normalizer gg_dim2, iv', P_aa, alpha gg_dim2, b'] =
      Inr \<lparr>log_normalizer = log_normalizer gg_dim2, info_vec = iv', precision = P_aa,
           alpha = alpha gg_dim2, beta = b'\<rparr>"
    using iv'(2) P_aa(2) by (simp add: ndim_def shape_from_def)
  have "condition gg_dim2 ?v = Inr \<lparr>log_normalizer = log_normalizer gg_dim2, info_vec = iv',
       precision = P_aa, alpha = alpha gg_dim2, beta = b'\<rparr>"
    unfolding condition_def k d bindE_simps Let_def
    using info_a(1) info_b(1) P_aa(1) P_ab(1) P_bb(1) m1(1) iv'(1) m2(1) q(1) b1(1) l(1) b'(1) init
    by (simp del: GaussianGamma_init.simps)
  then show ?thesis
    using fld iv' P_aa b' by simp
qed

lemma log_density_dim2_at:
  "\<exists>r. log_density gg_dim2 (vec [0, 1]) (scalar 1) = Inr r \<and> shape r = [] \<and>
       elems r [] = - (3 / 2)"
proof -
  have sP: "shape (precision gg_dim2) = [] @ [2, 2]"
    and si: "shape (info_vec gg_dim2) = [] @ [2]"
    and sv: "shape (vec [0, 1]) = [] @ [2]"
    and sc: "shape (log_normalizer gg_dim2) = []" "shape (alpha gg_dim2) = []"
      "shape (beta gg_dim2) = []" "shape (scalar 1) = []"
    by (simp_all add: gg_dim2_def mat_def vec_def scalar_def)
  have f: "fits (shape (log_normalizer gg_dim2)) []" "fits [] []" "fits (shape (alpha gg_dim2)) []"
    "fits (shape (beta gg_dim2)) []" "fits (shape (scalar 1)) []"
    by (simp_all add: sc)
  from log_density_sem [OF sP si sv f(1) f(2) f(2) f(3) f(4) f(2) f(5)]
  obtain r where r: "log_density gg_dim2 (vec [0, 1]) (scalar 1) = Inr r"
    "rep [] [shape (log_normalizer gg_dim2), [], [], shape (alpha gg_dim2), shape (beta gg_dim2), [],
        shape (scalar 1)] [] r (\<lambda>idx ev. gg_density_at gg_dim2 (vec [0, 1]) (scalar 1) idx)"
    by blast
  from rep_value [OF r(2)] have v: "shape r = []"
    "elems r [] = gg_density_at gg_dim2 (vec [0, 1]) (scalar 1) []" by simp_all
  have u: "[0..<2] = [0, 1]" by (simp add: upt_rec numeral_2_eq_2)
  have "gg_density_at gg_dim2 (vec [0, 1]) (scalar 1) [] = - (3 / 2)"
    by (simp add: gg_density_at_def bread_def gg_dim2_def mat_def vec_def scalar_def
        shape_upto_def bidx_def elems_mk u)
  with r(1) v show ?thesis by simp
qed

text \<open>When the operations of the tensor library succeed.\<close>

lemma isl_bindE_Inr [simp]: "isl (bindE m (\<lambda>r. Inr (f r))) = isl m"
  by (cases m) simp_all






lemma count_list_map_int [simp]: "count_list (map int S) (- 1) = 0"
  by (induction S) auto







lemma init_returns:
  assumes "shape iv = Bi @ [n]" "shape P = BP @ [n, n]"
  shows "\<exists>g'. GaussianGamma_init [l, iv, P, a, b] = Inr g' \<and> gg_inv g'"
proof -
  have "gg_inv \<lparr>log_normalizer = l, info_vec = iv, precision = P, alpha = a, beta = b\<rparr>"
    by (rule gg_inv_I [where Bi = Bi and BP = BP and n = n]) (simp_all add: assms)
  then show ?thesis unfolding init_trailing by blast
qed





lemma shape_smul [simp]: "shape (smul c t) = shape t"
  by (simp add: smul_def)











section \<open>Shape-contract violations\<close>

text \<open>
  Claim C7. Every listed violation of a shape contract ends in a failed assertion, never
  in a result: the constructor when \<open>info_vec\<close> has no dimension, when \<open>precision\<close>
  has fewer than two, or when the last two sizes of \<open>precision\<close> are not both the
  last size of \<open>info_vec\<close>; \<open>__add__\<close> when the two \<open>dim()\<close> differ; \<open>condition\<close> when
  the value's last size exceeds \<open>dim()\<close>; \<open>event_permute\<close> when the shape of \<open>perm\<close>
  is not \<open>(dim(),)\<close>.
\<close>

theorem shape_contract_violations_fail:
  "(ndim iv < 1 \<longrightarrow> GaussianGamma_init [l, iv, P, a, b] = Inl AssertionError) \<and>
   (ndim P < 2 \<longrightarrow> GaussianGamma_init [l, iv, P, a, b] = Inl AssertionError) \<and>
   (1 \<le> ndim iv \<and> 2 \<le> ndim P \<and>
      \<not> (shape P ! (ndim P - 2) = last (shape iv) \<and> last (shape P) = last (shape iv))
      \<longrightarrow> GaussianGamma_init [l, iv, P, a, b] = Inl AssertionError) \<and>
   (dim_of g = Inr n \<and> dim_of other = Inr m \<and> n \<noteq> m \<longrightarrow> add g other = Inl AssertionError) \<and>
   (size_last v = Inr k \<and> dim_of g = Inr n \<and> n < k \<longrightarrow> condition g v = Inl AssertionError) \<and>
   (dim_of g = Inr n \<and> ishape perm \<noteq> [n] \<longrightarrow> event_permute g perm = Inl AssertionError)"
proof (intro conjI impI)
  assume "ndim iv < 1"
  then show "GaussianGamma_init [l, iv, P, a, b] = Inl AssertionError" by simp
next
  assume "ndim P < 2"
  then show "GaussianGamma_init [l, iv, P, a, b] = Inl AssertionError" by simp
next
  assume h: "1 \<le> ndim iv \<and> 2 \<le> ndim P \<and>
      \<not> (shape P ! (ndim P - 2) = last (shape iv) \<and> last (shape P) = last (shape iv))"
  then have "shape_from 2 (shape P) \<noteq> shape_from 1 (shape iv) @ shape_from 1 (shape iv)"
    by (auto simp: ndim_def shape_from_2 shape_from_1 Suc_le_eq)
  with h show "GaussianGamma_init [l, iv, P, a, b] = Inl AssertionError" by simp
next
  assume "dim_of g = Inr n \<and> dim_of other = Inr m \<and> n \<noteq> m"
  then show "add g other = Inl AssertionError" by (simp add: add_def)
next
  assume "size_last v = Inr k \<and> dim_of g = Inr n \<and> n < k"
  then show "condition g v = Inl AssertionError" by (simp add: condition_def dim_of_def)
next
  assume "dim_of g = Inr n \<and> ishape perm \<noteq> [n]"
  then show "event_permute g perm = Inl AssertionError" by (simp add: event_permute_def)
qed

theorem shape_contract_violations_fail_witness:
  "GaussianGamma_init [scalar 0, scalar 0, mat 1 [[2]], scalar 0, scalar 0] = Inl AssertionError \<and>
   GaussianGamma_init [scalar 0, vec [0], vec [2], scalar 0, scalar 0] = Inl AssertionError \<and>
   GaussianGamma_init [scalar 0, vec [0], mat 2 [[1, 0]], scalar 0, scalar 0] = Inl AssertionError \<and>
   dim_of gg_scenario = Inr 1 \<and> dim_of gg_dim2 = Inr 2 \<and>
   add gg_scenario gg_dim2 = Inl AssertionError \<and>
   size_last (vec [1, 2]) = Inr 2 \<and> condition gg_scenario (vec [1, 2]) = Inl AssertionError \<and>
   event_permute gg_scenario perm_swap = Inl AssertionError"
proof -
  have d1: "dim_of gg_scenario = Inr 1"
    by (simp add: dim_of_def size_last_def gg_scenario_def vec_def)
  have d2: "dim_of gg_dim2 = Inr 2"
    by (simp add: dim_of_def size_last_def gg_dim2_def vec_def)
  have sv: "size_last (vec [1, 2]) = Inr 2"
    by (simp add: size_last_def vec_def)
  have h1: "ndim (scalar 0) < 1"
    by (simp add: ndim_def scalar_def)
  have h2: "ndim (vec [2]) < 2"
    by (simp add: ndim_def vec_def)
  have h3: "1 \<le> ndim (vec [0]) \<and> 2 \<le> ndim (mat 2 [[1, 0]]) \<and>
      \<not> (shape (mat 2 [[1, 0]]) ! (ndim (mat 2 [[1, 0]]) - 2) = last (shape (vec [0])) \<and>
         last (shape (mat 2 [[1, 0]])) = last (shape (vec [0])))"
    by (simp add: ndim_def vec_def mat_def)
  have h6: "ishape perm_swap \<noteq> [1]"
    by (simp add: perm_swap_def)
  have c1: "GaussianGamma_init [scalar 0, scalar 0, mat 1 [[2]], scalar 0, scalar 0]
      = Inl AssertionError"
    using shape_contract_violations_fail [where iv = "scalar 0"] h1 by blast
  have c2: "GaussianGamma_init [scalar 0, vec [0], vec [2], scalar 0, scalar 0]
      = Inl AssertionError"
    using shape_contract_violations_fail [where P = "vec [2]"] h2 by blast
  have c3: "GaussianGamma_init [scalar 0, vec [0], mat 2 [[1, 0]], scalar 0, scalar 0]
      = Inl AssertionError"
    using shape_contract_violations_fail [where iv = "vec [0]" and P = "mat 2 [[1, 0]]"] h3
    by blast
  have c4: "add gg_scenario gg_dim2 = Inl AssertionError"
    using shape_contract_violations_fail
      [where g = gg_scenario and other = gg_dim2 and n = 1 and m = 2] d1 d2
    by simp
  have c5: "condition gg_scenario (vec [1, 2]) = Inl AssertionError"
    using shape_contract_violations_fail
      [where g = gg_scenario and v = "vec [1, 2]" and n = 1 and k = 2] d1 sv
    by simp
  have c6: "event_permute gg_scenario perm_swap = Inl AssertionError"
    using shape_contract_violations_fail [where g = gg_scenario and perm = perm_swap and n = 1]
      d1 h6
    by blast
  from c1 c2 c3 c4 c5 c6 d1 d2 sv show ?thesis by blast
qed

section \<open>Marginalisation: the two guards\<close>

text \<open>
  Claim C9. \<open>marginalize(0, 0)\<close>, which is also \<open>marginalize()\<close> with its default
  arguments, returns the instance itself, whatever the instance is.
\<close>

theorem marginalize_zero_is_identity:
  "marginalize g 0 0 = Inr g"
  by (simp add: marginalize_def)

text \<open>
  Claim C4. With both \<open>left > 0\<close> and \<open>right > 0\<close>, \<open>marginalize\<close> raises
  NotImplementedError and returns nothing.
\<close>

theorem marginalize_two_sided_not_implemented:
  "0 < left \<Longrightarrow> 0 < right \<Longrightarrow> marginalize g left right = Inl NotImplementedError"
  by (simp add: marginalize_def)

theorem marginalize_two_sided_not_implemented_witness:
  "(0 :: int) < 1 \<and> (0 :: int) < 2 \<and> marginalize gg_dim2 1 2 = Inl NotImplementedError"
proof -
  have l: "(0 :: int) < 1" and r: "(0 :: int) < 2" by simp_all
  from marginalize_two_sided_not_implemented [OF l r, of gg_dim2] l r show ?thesis by blast
qed

section \<open>Addition multiplies densities\<close>

text \<open>
  Claim C5. For two instances of the same event dimension \<open>n\<close> whose batch shapes,
  together with the batch shape of the state \<open>v\<close> and the shape of the scale \<open>s\<close>,
  broadcast to one shape, \<open>g1 + g2\<close> is the instance whose five fields are the sums of
  the fields, and its log-density at \<open>(v, s)\<close> is the sum of the two log-densities
  (as tensors: same shape, same entries). Against an operand of another event dimension
  the addition fails its assertion. No condition on the sign of \<open>s\<close> is needed in
  exact arithmetic.
\<close>

theorem add_multiplies_densities:
  assumes inv: "gg_inv g1" "gg_inv g2"
    and d: "dim_of g1 = Inr n" "dim_of g2 = Inr n"
    and sz: "size_last v = Inr n"
    and compat: "broadcast_shape (field_batch_shapes g1 @ field_batch_shapes g2
                   @ [shape_upto 1 (shape v), shape s]) = Inr T"
  shows "(\<exists>g r1 r2 r. add g1 g2 = Inr g \<and>
           tadd (log_normalizer g1) (log_normalizer g2) = Inr (log_normalizer g) \<and>
           tadd (info_vec g1) (info_vec g2) = Inr (info_vec g) \<and>
           tadd (precision g1) (precision g2) = Inr (precision g) \<and>
           tadd (alpha g1) (alpha g2) = Inr (alpha g) \<and>
           tadd (beta g1) (beta g2) = Inr (beta g) \<and>
           log_density g1 v s = Inr r1 \<and> log_density g2 v s = Inr r2 \<and>
           tadd r1 r2 = Inr r \<and> log_density g v s = Inr r) \<and>
         (\<forall>g3 m. dim_of g3 = Inr m \<and> m \<noteq> n \<longrightarrow> add g1 g3 = Inl AssertionError)"
proof
  define Bi1 where "Bi1 = shape_upto 1 (shape (info_vec g1))"
  define BP1 where "BP1 = shape_upto 2 (shape (precision g1))"
  define Bi2 where "Bi2 = shape_upto 1 (shape (info_vec g2))"
  define BP2 where "BP2 = shape_upto 2 (shape (precision g2))"
  define Bv where "Bv = shape_upto 1 (shape v)"
  note defs = Bi1_def BP1_def Bi2_def BP2_def Bv_def
  have i1: "shape (info_vec g1) = Bi1 @ [n]" and p1: "shape (precision g1) = BP1 @ [n, n]"
    using gg_inv_shapes [OF inv(1) d(1)] by (simp_all add: defs)
  have i2: "shape (info_vec g2) = Bi2 @ [n]" and p2: "shape (precision g2) = BP2 @ [n, n]"
    using gg_inv_shapes [OF inv(2) d(2)] by (simp_all add: defs)
  have sv: "shape v = Bv @ [n]"
    using size_last_shape [OF sz] by (simp add: defs)
  have lv: "last (shape v) = n" by (simp add: sv)
  note up = broadcast_shape_upper [OF compat]
  have f1: "fits (shape (log_normalizer g1)) T" "fits Bi1 T" "fits BP1 T"
      "fits (shape (alpha g1)) T" "fits (shape (beta g1)) T"
    by (rule up, simp add: field_batch_shapes_def defs)+
  have f2: "fits (shape (log_normalizer g2)) T" "fits Bi2 T" "fits BP2 T"
      "fits (shape (alpha g2)) T" "fits (shape (beta g2)) T"
    by (rule up, simp add: field_batch_shapes_def defs)+
  have fv: "fits Bv T" and fs: "fits (shape s) T"
    by (rule up, simp add: field_batch_shapes_def defs)+
  have least: "fits T U"
    if "fits (shape (log_normalizer g1)) U" "fits Bi1 U" "fits BP1 U"
      "fits (shape (alpha g1)) U" "fits (shape (beta g1)) U"
      "fits (shape (log_normalizer g2)) U" "fits Bi2 U" "fits BP2 U"
      "fits (shape (alpha g2)) U" "fits (shape (beta g2)) U" "fits Bv U" "fits (shape s) U" for U
    by (rule broadcast_shape_least [OF compat]) (use that in \<open>simp add: field_batch_shapes_def defs\<close>)
  from add_fields [OF i1 p1 i2 p2 f1 f2]
  obtain g where g: "add g1 g2 = Inr g"
     "tadd (log_normalizer g1) (log_normalizer g2) = Inr (log_normalizer g)"
     "tadd (info_vec g1) (info_vec g2) = Inr (info_vec g)"
     "tadd (precision g1) (precision g2) = Inr (precision g)"
     "tadd (alpha g1) (alpha g2) = Inr (alpha g)"
     "tadd (beta g1) (beta g2) = Inr (beta g)"
   and rl: "rep T [shape (log_normalizer g1), shape (log_normalizer g2)] [] (log_normalizer g)
       (\<lambda>idx ev. bread (log_normalizer g1) 0 idx [] + bread (log_normalizer g2) 0 idx [])"
   and ri: "rep T [Bi1, Bi2] [n] (info_vec g)
       (\<lambda>idx ev. bread (info_vec g1) 1 idx ev + bread (info_vec g2) 1 idx ev)"
   and rp: "rep T [BP1, BP2] [n, n] (precision g)
       (\<lambda>idx ev. bread (precision g1) 2 idx ev + bread (precision g2) 2 idx ev)"
   and ra: "rep T [shape (alpha g1), shape (alpha g2)] [] (alpha g)
       (\<lambda>idx ev. bread (alpha g1) 0 idx [] + bread (alpha g2) 0 idx [])"
   and rb: "rep T [shape (beta g1), shape (beta g2)] [] (beta g)
       (\<lambda>idx ev. bread (beta g1) 0 idx [] + bread (beta g2) 0 idx [])"
    by blast
  define Bi where "Bi = shape_upto 1 (shape (info_vec g))"
  define BP where "BP = shape_upto 2 (shape (precision g))"
  have gi: "shape (info_vec g) = Bi @ [n]" "fits Bi T" "fits Bi1 Bi" "fits Bi2 Bi"
    using rep_shape [OF ri] by (simp_all add: Bi_def)
  have gp: "shape (precision g) = BP @ [n, n]" "fits BP T" "fits BP1 BP" "fits BP2 BP"
    using rep_shape [OF rp] by (simp_all add: BP_def numeral_2_eq_2)
  have gl: "fits (shape (log_normalizer g)) T" "fits (shape (log_normalizer g1)) (shape (log_normalizer g))"
      "fits (shape (log_normalizer g2)) (shape (log_normalizer g))"
    using rep_shape [OF rl] by (simp_all add: shape_upto_def)
  have ga: "fits (shape (alpha g)) T" "fits (shape (alpha g1)) (shape (alpha g))"
      "fits (shape (alpha g2)) (shape (alpha g))"
    using rep_shape [OF ra] by (simp_all add: shape_upto_def)
  have gb: "fits (shape (beta g)) T" "fits (shape (beta g1)) (shape (beta g))"
      "fits (shape (beta g2)) (shape (beta g))"
    using rep_shape [OF rb] by (simp_all add: shape_upto_def)
  from log_density_sem [OF p1 i1 sv f1(1) f1(2) f1(3) f1(4) f1(5) fv fs]
  obtain r1 where r1: "log_density g1 v s = Inr r1"
    "rep T [shape (log_normalizer g1), Bi1, BP1, shape (alpha g1), shape (beta g1), Bv, shape s] [] r1
       (\<lambda>idx ev. gg_density_at g1 v s idx)"
    by blast
  from log_density_sem [OF p2 i2 sv f2(1) f2(2) f2(3) f2(4) f2(5) fv fs]
  obtain r2 where r2: "log_density g2 v s = Inr r2"
    "rep T [shape (log_normalizer g2), Bi2, BP2, shape (alpha g2), shape (beta g2), Bv, shape s] [] r2
       (\<lambda>idx ev. gg_density_at g2 v s idx)"
    by blast
  from log_density_sem [OF gp(1) gi(1) sv gl(1) gi(2) gp(2) ga(1) gb(1) fv fs]
  obtain r where r: "log_density g v s = Inr r" "canonical r"
    "rep T [shape (log_normalizer g), Bi, BP, shape (alpha g), shape (beta g), Bv, shape s] [] r
       (\<lambda>idx ev. gg_density_at g v s idx)"
    by blast
  from rep_tbin [OF r1(2) r2(2), of "(+)"]
  obtain r' where r': "tadd r1 r2 = Inr r'" "canonical r'"
    "rep T ([shape (log_normalizer g1), Bi1, BP1, shape (alpha g1), shape (beta g1), Bv, shape s]
            @ [shape (log_normalizer g2), Bi2, BP2, shape (alpha g2), shape (beta g2), Bv, shape s]) [] r'
       (\<lambda>idx ev. gg_density_at g1 v s idx + gg_density_at g2 v s idx)"
    unfolding tadd_def by blast
  have fin: "shape r = T \<and> (\<forall>idx. valid_index T idx \<longrightarrow> elems r idx = gg_density_at g v s idx)"
  proof (rule rep_final [OF r(3)])
    fix U
    assume "\<forall>d \<in> set [shape (log_normalizer g), Bi, BP, shape (alpha g), shape (beta g), Bv, shape s].
      fits d U"
    then show "fits T U"
      using gi(3,4) gp(3,4) gl(2,3) ga(2,3) gb(2,3)
      by (intro least) (auto intro: fits_trans)
  qed
  have fin': "shape r' = T \<and> (\<forall>idx. valid_index T idx \<longrightarrow>
      elems r' idx = gg_density_at g1 v s idx + gg_density_at g2 v s idx)"
    by (rule rep_final [OF r'(3)]) (auto intro: least)
  have eq: "gg_density_at g v s idx = gg_density_at g1 v s idx + gg_density_at g2 v s idx"
    if v: "valid_index T idx" for idx
  proof (rule density_at_add [where T = T and n = n, OF _ _ _ _ _ lv v])
    fix idx assume "valid_index T idx"
    then show "bread (alpha g) 0 idx [] = bread (alpha g1) 0 idx [] + bread (alpha g2) 0 idx []"
      using rep_bread [OF ra, of idx "[]"] by simp
  next
    fix idx assume "valid_index T idx"
    then show "bread (beta g) 0 idx [] = bread (beta g1) 0 idx [] + bread (beta g2) 0 idx []"
      using rep_bread [OF rb, of idx "[]"] by simp
  next
    fix idx assume "valid_index T idx"
    then show "bread (log_normalizer g) 0 idx []
        = bread (log_normalizer g1) 0 idx [] + bread (log_normalizer g2) 0 idx []"
      using rep_bread [OF rl, of idx "[]"] by simp
  next
    fix idx i assume "valid_index T idx" "i < n"
    then show "bread (info_vec g) 1 idx [i]
        = bread (info_vec g1) 1 idx [i] + bread (info_vec g2) 1 idx [i]"
      using rep_bread [OF ri, of idx "[i]"] by simp
  next
    fix idx i l assume "valid_index T idx" "i < n" "l < n"
    then show "bread (precision g) 2 idx [i, l]
        = bread (precision g1) 2 idx [i, l] + bread (precision g2) 2 idx [i, l]"
      using rep_bread [OF rp, of idx "[i, l]"] by (simp add: numeral_2_eq_2)
  qed
  have "r' = r"
    by (rule tensor_eqI [OF r'(2) r(2)]) (use fin fin' eq in auto)
  with g r1(1) r2(1) r'(1) r(1)
  show "\<exists>g r1 r2 r. add g1 g2 = Inr g \<and>
           tadd (log_normalizer g1) (log_normalizer g2) = Inr (log_normalizer g) \<and>
           tadd (info_vec g1) (info_vec g2) = Inr (info_vec g) \<and>
           tadd (precision g1) (precision g2) = Inr (precision g) \<and>
           tadd (alpha g1) (alpha g2) = Inr (alpha g) \<and>
           tadd (beta g1) (beta g2) = Inr (beta g) \<and>
           log_density g1 v s = Inr r1 \<and> log_density g2 v s = Inr r2 \<and>
           tadd r1 r2 = Inr r \<and> log_density g v s = Inr r"
    by blast
next
  show "\<forall>g3 m. dim_of g3 = Inr m \<and> m \<noteq> n \<longrightarrow> add g1 g3 = Inl AssertionError"
    using d(1) by (auto simp: add_def)
qed

theorem add_multiplies_densities_witness:
  "gg_inv gg_scenario \<and> dim_of gg_scenario = Inr 1 \<and> size_last (vec [1]) = Inr 1 \<and>
   broadcast_shape (field_batch_shapes gg_scenario @ field_batch_shapes gg_scenario
       @ [shape_upto 1 (shape (vec [1])), shape (vec [1, 2])]) = Inr [2] \<and>
   (\<exists>g r1 r2 r. add gg_scenario gg_scenario = Inr g \<and>
      tadd (alpha gg_scenario) (alpha gg_scenario) = Inr (alpha g) \<and>
      log_density gg_scenario (vec [1]) (vec [1, 2]) = Inr r1 \<and>
      log_density gg_scenario (vec [1]) (vec [1, 2]) = Inr r2 \<and>
      tadd r1 r2 = Inr r \<and> log_density g (vec [1]) (vec [1, 2]) = Inr r) \<and>
   add gg_scenario gg_dim2 = Inl AssertionError"
proof -
  have inv: "gg_inv gg_scenario"
    by (simp add: gg_inv_def gg_scenario_def ndim_def vec_def mat_def shape_from_def)
  have d: "dim_of gg_scenario = Inr 1"
    by (simp add: dim_of_def size_last_def gg_scenario_def vec_def)
  have d2: "dim_of gg_dim2 = Inr 2"
    by (simp add: dim_of_def size_last_def gg_dim2_def vec_def)
  have sz: "size_last (vec [1]) = Inr 1"
    by (simp add: size_last_def vec_def)
  have compat: "broadcast_shape (field_batch_shapes gg_scenario @ field_batch_shapes gg_scenario
       @ [shape_upto 1 (shape (vec [1])), shape (vec [1, 2])]) = Inr [2]"
    by (simp add: broadcast_shape_def field_batch_shapes_def gg_scenario_def scalar_def vec_def
        mat_def shape_upto_def bshape_def)
  note t = add_multiplies_densities [OF inv inv d d sz compat]
  from t have "add gg_scenario gg_dim2 = Inl AssertionError"
    using d2 by simp
  moreover from t have "\<exists>g r1 r2 r. add gg_scenario gg_scenario = Inr g \<and>
      tadd (alpha gg_scenario) (alpha gg_scenario) = Inr (alpha g) \<and>
      log_density gg_scenario (vec [1]) (vec [1, 2]) = Inr r1 \<and>
      log_density gg_scenario (vec [1]) (vec [1, 2]) = Inr r2 \<and>
      tadd r1 r2 = Inr r \<and> log_density g (vec [1]) (vec [1, 2]) = Inr r"
    by blast
  ultimately show ?thesis
    using inv d sz compat by blast
qed

section \<open>The degenerate event dimension\<close>

text \<open>
  Claim C6 says that for event dimension 0 the log-density equals that of
  \<open>Gamma(log_normalizer, alpha, beta)\<close> built from the same three scalars. It does not:
  the GaussianGamma multiplies \<open>log(s)\<close> by \<open>alpha\<close>, the Gamma by \<open>alpha - 1\<close>. At
  \<open>alpha = beta = 1\<close>, \<open>log_normalizer = 0\<close> and \<open>s = 2\<close> the first is \<open>ln 2 - 2\<close> and
  the second is \<open>-2\<close>.
\<close>

theorem degenerate_density_counterexample:
  "dim_of gg_empty = Inr 0 \<and> size_last (vec []) = Inr 0 \<and>
   (\<exists>r r'. log_density gg_empty (vec []) (scalar 2) = Inr r \<and>
      Gamma_log_density (gamma_same_scalars gg_empty) (scalar 2) = Inr r' \<and>
      elems r [] = ln 2 - 2 \<and> elems r' [] = - 2 \<and> r \<noteq> r')"
proof -
  have sh: "shape (precision gg_empty) = [] @ [0, 0]" "shape (info_vec gg_empty) = [] @ [0]"
      "shape (vec []) = [] @ [0]"
    by (simp_all add: gg_empty_def)
  from log_density_sem [OF sh, of "[]" "scalar 2"]
  obtain r where r: "log_density gg_empty (vec []) (scalar 2) = Inr r"
    "rep [] [shape (log_normalizer gg_empty), [], [], shape (alpha gg_empty), shape (beta gg_empty),
        [], shape (scalar 2)] [] r (\<lambda>idx ev. gg_density_at gg_empty (vec []) (scalar 2) idx)"
    by (auto simp: gg_empty_def)
  from Gamma_log_density_sem [of "gamma_same_scalars gg_empty" "[]" "scalar 2"]
  obtain r' where r': "Gamma_log_density (gamma_same_scalars gg_empty) (scalar 2) = Inr r'"
    "rep [] [shape (gamma_log_normalizer (gamma_same_scalars gg_empty)),
       shape (gamma_alpha (gamma_same_scalars gg_empty)),
       shape (gamma_beta (gamma_same_scalars gg_empty)), shape (scalar 2)] [] r'
       (\<lambda>idx ev. bread (gamma_log_normalizer (gamma_same_scalars gg_empty)) 0 idx []
          + (bread (gamma_alpha (gamma_same_scalars gg_empty)) 0 idx [] - 1) * ln (bread (scalar 2) 0 idx [])
          - bread (gamma_beta (gamma_same_scalars gg_empty)) 0 idx [] * bread (scalar 2) 0 idx [])"
    by (auto simp: gg_empty_def gamma_same_scalars_def)
  have v: "elems r [] = ln 2 - 2"
    using rep_value [OF r(2)] by (simp add: gg_density_at_def gg_empty_def)
  have v': "elems r' [] = - 2"
    using rep_value [OF r'(2)] by (simp add: gamma_same_scalars_def gg_empty_def)
  have "ln (2 :: real) \<noteq> 0" by simp
  with v v' have "r \<noteq> r'" by auto
  moreover have "dim_of gg_empty = Inr 0" "size_last (vec []) = Inr 0"
    by (simp_all add: dim_of_def size_last_def gg_empty_def)
  ultimately show ?thesis using r(1) r'(1) v v' by blast
qed

text \<open>
  Claim C6, amended. For an instance of event dimension 0, a state of last size 0 and
  shapes that broadcast to \<open>T\<close>, \<open>log_density\<close> returns the tensor of shape \<open>T\<close> with
  entries \<open>alpha * log(s) - beta * s + log_normalizer\<close>, and that tensor is the
  log-density of \<open>Gamma(log_normalizer, alpha + 1, beta)\<close> at \<open>s\<close>, expanded to \<open>T\<close>: the
  shape parameter of the Gamma is \<open>alpha + 1\<close>, as the reparameterisation
  \<open>alpha = Gamma.alpha + 0.5 * dim - 1\<close> of the class gives it at \<open>dim = 0\<close>.
\<close>

theorem degenerate_density_is_shifted_gamma:
  assumes inv: "gg_inv g" and d: "dim_of g = Inr 0" and sz: "size_last v = Inr 0"
    and compat: "broadcast_shape (field_batch_shapes g @ [shape_upto 1 (shape v), shape s]) = Inr T"
  shows "\<exists>r r'. log_density g v s = Inr r \<and> shape r = T \<and>
           (\<forall>idx. valid_index T idx \<longrightarrow>
              elems r idx = bread (alpha g) 0 idx [] * ln (bread s 0 idx [])
                            - bread (beta g) 0 idx [] * bread s 0 idx []
                            + bread (log_normalizer g) 0 idx []) \<and>
           Gamma_log_density
             \<lparr>gamma_log_normalizer = log_normalizer g, gamma_alpha = sadd (alpha g) 1,
              gamma_beta = beta g\<rparr> s = Inr r' \<and>
           expand r' (map int T) = Inr r"
proof -
  define Bi where "Bi = shape_upto 1 (shape (info_vec g))"
  define BP where "BP = shape_upto 2 (shape (precision g))"
  define Bv where "Bv = shape_upto 1 (shape v)"
  define G where "G = \<lparr>gamma_log_normalizer = log_normalizer g, gamma_alpha = sadd (alpha g) 1,
              gamma_beta = beta g\<rparr>"
  note defs = Bi_def BP_def Bv_def
  have i1: "shape (info_vec g) = Bi @ [0]" and p1: "shape (precision g) = BP @ [0, 0]"
    using gg_inv_shapes [OF inv d] by (simp_all add: defs)
  have sv: "shape v = Bv @ [0]"
    using size_last_shape [OF sz] by (simp add: defs)
  note up = broadcast_shape_upper [OF compat]
  have f1: "fits (shape (log_normalizer g)) T" "fits Bi T" "fits BP T"
      "fits (shape (alpha g)) T" "fits (shape (beta g)) T"
    by (rule up, simp add: field_batch_shapes_def defs)+
  have fv: "fits Bv T" and fs: "fits (shape s) T"
    by (rule up, simp add: field_batch_shapes_def defs)+
  have least: "fits T U"
    if "\<forall>d \<in> set [shape (log_normalizer g), Bi, BP, shape (alpha g), shape (beta g), Bv, shape s].
      fits d U" for U
    by (rule broadcast_shape_least [OF compat]) (use that in \<open>simp add: field_batch_shapes_def defs\<close>)
  from log_density_sem [OF p1 i1 sv f1(1) f1(2) f1(3) f1(4) f1(5) fv fs]
  obtain r where r: "log_density g v s = Inr r" "canonical r"
    "rep T [shape (log_normalizer g), Bi, BP, shape (alpha g), shape (beta g), Bv, shape s] [] r
       (\<lambda>idx ev. gg_density_at g v s idx)"
    by blast
  from rep_final [OF r(3) least]
  have fin: "shape r = T" "\<And>idx. valid_index T idx \<Longrightarrow> elems r idx = gg_density_at g v s idx"
    by auto
  have form: "gg_density_at g v s idx = bread (alpha g) 0 idx [] * ln (bread s 0 idx [])
                            - bread (beta g) 0 idx [] * bread s 0 idx []
                            + bread (log_normalizer g) 0 idx []" for idx
    by (simp add: gg_density_at_def sv algebra_simps)
  have "fits (shape (gamma_log_normalizer G)) T" "fits (shape (gamma_alpha G)) T"
      "fits (shape (gamma_beta G)) T"
    using f1 by (simp_all add: G_def sadd_def)
  from Gamma_log_density_sem [OF this fs]
  obtain r' where r': "Gamma_log_density G s = Inr r'"
    "rep T [shape (gamma_log_normalizer G), shape (gamma_alpha G), shape (gamma_beta G), shape s] [] r'
       (\<lambda>idx ev. bread (gamma_log_normalizer G) 0 idx []
          + (bread (gamma_alpha G) 0 idx [] - 1) * ln (bread s 0 idx [])
          - bread (gamma_beta G) 0 idx [] * bread s 0 idx [])"
    by blast
  have fr': "fits (shape r') T"
    using rep_shape [OF r'(2)] by (simp add: shape_upto_def)
  from rep_expand [OF r'(2) fr' fits_refl]
  obtain r'' where r'': "expand r' (map int T) = Inr r''" "canonical r''"
    "rep T (T # [shape (gamma_log_normalizer G), shape (gamma_alpha G), shape (gamma_beta G), shape s])
       [] r''
       (\<lambda>idx ev. bread (gamma_log_normalizer G) 0 idx []
          + (bread (gamma_alpha G) 0 idx [] - 1) * ln (bread s 0 idx [])
          - bread (gamma_beta G) 0 idx [] * bread s 0 idx [])"
    by blast
  from rep_final [OF r''(3)]
  have fin'': "shape r'' = T" "\<And>idx. valid_index T idx \<Longrightarrow> elems r'' idx =
       bread (gamma_log_normalizer G) 0 idx []
          + (bread (gamma_alpha G) 0 idx [] - 1) * ln (bread s 0 idx [])
          - bread (gamma_beta G) 0 idx [] * bread s 0 idx []"
    by auto
  have "r'' = r"
  proof (rule tensor_eqI [OF r''(2) r(2)])
    show "shape r'' = shape r" by (simp add: fin fin'')
    fix idx assume "valid_index (shape r'') idx"
    then have v: "valid_index T idx" by (simp add: fin'')
    show "elems r'' idx = elems r idx"
      using bread_tmap_scalar [OF v f1(4), of "\<lambda>x. x + 1"]
      by (simp add: fin(2) [OF v] fin''(2) [OF v] form G_def sadd_def)
  qed
  with r(1) r'(1) r''(1) fin form show ?thesis
    unfolding G_def by auto
qed

theorem degenerate_density_is_shifted_gamma_witness:
  "gg_inv gg_empty \<and> dim_of gg_empty = Inr 0 \<and> size_last (vec []) = Inr 0 \<and>
   broadcast_shape (field_batch_shapes gg_empty @ [shape_upto 1 (shape (vec [])), shape (vec [2, 3])])
     = Inr [2] \<and>
   (\<exists>r r'. log_density gg_empty (vec []) (vec [2, 3]) = Inr r \<and> shape r = [2] \<and>
      elems r [0] = ln 2 - 2 \<and>
      Gamma_log_density
        \<lparr>gamma_log_normalizer = log_normalizer gg_empty, gamma_alpha = sadd (alpha gg_empty) 1,
         gamma_beta = beta gg_empty\<rparr> (vec [2, 3]) = Inr r' \<and>
      expand r' (map int [2]) = Inr r)"
proof -
  have inv: "gg_inv gg_empty"
    by (simp add: gg_inv_def gg_empty_def ndim_def shape_from_def)
  have d: "dim_of gg_empty = Inr 0"
    by (simp add: dim_of_def size_last_def gg_empty_def)
  have sz: "size_last (vec []) = Inr 0"
    by (simp add: size_last_def)
  have compat: "broadcast_shape (field_batch_shapes gg_empty
      @ [shape_upto 1 (shape (vec [])), shape (vec [2, 3])]) = Inr [2]"
    by (simp add: broadcast_shape_def field_batch_shapes_def gg_empty_def shape_upto_def bshape_def)
  from degenerate_density_is_shifted_gamma [OF inv d sz compat]
  obtain r r' where r: "log_density gg_empty (vec []) (vec [2, 3]) = Inr r" "shape r = [2]"
    "\<forall>idx. valid_index [2] idx \<longrightarrow>
        elems r idx = bread (alpha gg_empty) 0 idx [] * ln (bread (vec [2, 3]) 0 idx [])
                      - bread (beta gg_empty) 0 idx [] * bread (vec [2, 3]) 0 idx []
                      + bread (log_normalizer gg_empty) 0 idx []"
    "Gamma_log_density
        \<lparr>gamma_log_normalizer = log_normalizer gg_empty, gamma_alpha = sadd (alpha gg_empty) 1,
         gamma_beta = beta gg_empty\<rparr> (vec [2, 3]) = Inr r'"
    "expand r' (map int [2]) = Inr r"
    by blast
  have b: "bread (vec [2, 3]) 0 [0] [] = 2"
    by (simp add: bread_def shape_upto_def bidx_def vec_def elems_mk)
  have "valid_index [2] [0]" by simp
  with r(3) have "elems r [0] = ln 2 - 2"
    by (simp add: b gg_empty_def)
  with r inv d sz compat show ?thesis by blast
qed

section \<open>Padding the event dimension\<close>

text \<open>
  Claim C8. For non-negative \<open>left = l\<close> and \<open>right = r\<close>, \<open>event_pad\<close> returns an instance
  whose \<open>log_normalizer\<close>, \<open>alpha\<close> and \<open>beta\<close> are those of \<open>g\<close>; its \<open>info_vec\<close> is that
  of \<open>g\<close> with \<open>l\<close> zeros before and \<open>r\<close> zeros after along the last dimension, and its
  \<open>precision\<close> that of \<open>g\<close> padded with zeros in the same way along both last
  dimensions; the batch dimensions are as they were.
\<close>

theorem event_pad_frame:
  assumes inv: "gg_inv g" and d: "dim_of g = Inr n"
  shows "\<exists>g'. event_pad g (int l) (int r) = Inr g' \<and>
     log_normalizer g' = log_normalizer g \<and> alpha g' = alpha g \<and> beta g' = beta g \<and>
     shape (info_vec g') = shape_upto 1 (shape (info_vec g)) @ [n + l + r] \<and>
     shape (precision g') = shape_upto 2 (shape (precision g)) @ [n + l + r, n + l + r] \<and>
     (\<forall>b i. valid_index (shape_upto 1 (shape (info_vec g))) b \<longrightarrow> i < n + l + r \<longrightarrow>
        elems (info_vec g') (b @ [i]) =
          (if l \<le> i \<and> i < l + n then elems (info_vec g) (b @ [i - l]) else 0)) \<and>
     (\<forall>b i j. valid_index (shape_upto 2 (shape (precision g))) b \<longrightarrow>
        i < n + l + r \<longrightarrow> j < n + l + r \<longrightarrow>
        elems (precision g') (b @ [i, j]) =
          (if l \<le> i \<and> i < l + n \<and> l \<le> j \<and> j < l + n
           then elems (precision g) (b @ [i - l, j - l]) else 0))"
proof -
  note sh = gg_inv_shapes [OF inv d]
  from pad_last [OF sh(1), of l r] obtain iv' where
    iv': "pad (info_vec g) [int l, int r] = Inr iv'"
      "shape iv' = shape_upto 1 (shape (info_vec g)) @ [n + l + r]"
      "\<forall>b i. valid_index (shape_upto 1 (shape (info_vec g))) b \<longrightarrow> i < n + l + r \<longrightarrow>
        elems iv' (b @ [i]) = (if l \<le> i \<and> i < l + n then elems (info_vec g) (b @ [i - l]) else 0)"
    by blast
  from pad_last2 [OF sh(2), of l r l r] obtain P' where
    P': "pad (precision g) [int l, int r, int l, int r] = Inr P'"
      "shape P' = shape_upto 2 (shape (precision g)) @ [n + l + r, n + l + r]"
      "\<forall>b i j. valid_index (shape_upto 2 (shape (precision g))) b \<longrightarrow>
        i < n + l + r \<longrightarrow> j < n + l + r \<longrightarrow>
        elems P' (b @ [i, j]) =
          (if l \<le> i \<and> i < l + n \<and> l \<le> j \<and> j < l + n
           then elems (precision g) (b @ [i - l, j - l]) else 0)"
    by blast
  define g' where "g' = \<lparr>log_normalizer = log_normalizer g, info_vec = iv', precision = P',
      alpha = alpha g, beta = beta g\<rparr>"
  have "gg_inv g'"
    by (rule gg_inv_I [where n = "n + l + r"]) (simp_all add: g'_def iv'(2) P'(2))
  then have "GaussianGamma_init [log_normalizer g, iv', P', alpha g, beta g] = Inr g'"
    by (simp add: gg_inv_def g'_def)
  then have "event_pad g (int l) (int r) = Inr g'"
    by (simp add: event_pad_def iv'(1) P'(1))
  with iv'(2,3) P'(2,3) show ?thesis
    by (intro exI [where x = g']) (simp add: g'_def)
qed

theorem event_pad_frame_witness:
  "gg_inv gg_scenario \<and> dim_of gg_scenario = Inr 1 \<and>
   (\<exists>g'. event_pad gg_scenario 1 2 = Inr g' \<and>
      log_normalizer g' = log_normalizer gg_scenario \<and> alpha g' = alpha gg_scenario \<and>
      beta g' = beta gg_scenario \<and>
      shape (info_vec g') = [4] \<and> shape (precision g') = [4, 4] \<and>
      elems (precision g') [1, 1] = 2 \<and> elems (precision g') [0, 0] = 0 \<and>
      elems (precision g') [1, 2] = 0)"
proof -
  have inv: "gg_inv gg_scenario"
    by (simp add: gg_inv_def gg_scenario_def ndim_def shape_from_def)
  have d: "dim_of gg_scenario = Inr 1"
    by (simp add: dim_of_def size_last_def gg_scenario_def)
  have s1: "shape_upto 1 (shape (info_vec gg_scenario)) = []"
    and s2: "shape_upto 2 (shape (precision gg_scenario)) = []"
    by (simp_all add: gg_scenario_def shape_upto_def)
  from event_pad_frame [OF inv d, of 1 2]
  obtain g' where g': "event_pad gg_scenario 1 2 = Inr g'"
     "log_normalizer g' = log_normalizer gg_scenario" "alpha g' = alpha gg_scenario"
     "beta g' = beta gg_scenario"
     "shape (info_vec g') = [4]" "shape (precision g') = [4, 4]"
     "\<forall>b i j. valid_index [] b \<longrightarrow> i < 4 \<longrightarrow> j < 4 \<longrightarrow>
        elems (precision g') (b @ [i, j]) =
          (if 1 \<le> i \<and> i < 2 \<and> 1 \<le> j \<and> j < 2
           then elems (precision gg_scenario) (b @ [i - 1, j - 1]) else 0)"
    unfolding s1 s2 by auto
  have m: "elems (precision gg_scenario) [0, 0] = 2"
    by (simp add: gg_scenario_def mat_def elems_mk)
  from g'(7) [rule_format, of "[]" 1 1] g'(7) [rule_format, of "[]" 0 0]
    g'(7) [rule_format, of "[]" 1 2]
  have "elems (precision g') [1, 1] = 2" "elems (precision g') [0, 0] = 0"
    "elems (precision g') [1, 2] = 0"
    by (simp_all add: m)
  with g' inv d show ?thesis by blast
qed

section \<open>Full integration over the event dimensions\<close>

text \<open>
  Claim C1 ends with a concrete scenario: \<open>n = 1\<close>, \<open>precision = [[2.0]]\<close>,
  \<open>info_vec = [0.0]\<close>, \<open>alpha = 1.5\<close>, \<open>beta = 0.5\<close>, \<open>log_normalizer = 0.0\<close>, for which it
  gives \<open>alpha' = 1.0\<close>. The code, and the claim's own formula \<open>alpha - 0.5 * n + 1\<close>,
  give \<open>alpha' = 1.5 - 0.5 + 1 = 2.0\<close> there.
\<close>

theorem event_logsumexp_scenario_counterexample:
  "\<exists>G. event_logsumexp gg_scenario = Inr G \<and> shape (gamma_alpha G) = [] \<and>
       elems (gamma_alpha G) [] = 2 \<and> elems (gamma_alpha G) [] \<noteq> 1"
proof -
  have sP: "shape (precision gg_scenario) = [] @ [1, 1]"
    and si: "shape (info_vec gg_scenario) = [] @ [1]"
    by (simp_all add: gg_scenario_def)
  have d: "dim_of gg_scenario = Inr 1"
    by (simp add: dim_of_def size_last_def gg_scenario_def)
  have f: "fits [] ([] :: nat list)" "fits (shape (beta gg_scenario)) []"
      "fits (shape (log_normalizer gg_scenario)) []"
    by (simp_all add: gg_scenario_def)
  from solve_sem [OF sP si f(1) f(1) factorable_scenario] obtain L sol where
    L: "cholesky (precision gg_scenario) = Inr L"
    and sol: "triangular_solve (unsqueeze_last (info_vec gg_scenario)) L = Inr sol"
    and rL: "rep [] [[]] [1, 1] L (chol_at (precision gg_scenario) [])"
    and rw: "rep [] [[], []] [1] (squeeze_last sol)
        (sol_at (precision gg_scenario) [] (info_vec gg_scenario))"
    by blast
  from beta_sem [OF rw f(2)] obtain b' where
    b': "tsub (beta gg_scenario) (smul 0.5 (sum_last (tpow2 (squeeze_last sol)))) = Inr b'"
    by blast
  from log_normalizer_sem [OF rL f(3), of "0.5 * real 1 * ln (2 * pi)"] obtain dg l' where
    dg: "diagonal_last L = Inr dg"
    and l': "tadd (log_normalizer gg_scenario)
        (rsub (0.5 * real 1 * ln (2 * pi)) (sum_last (tlog dg))) = Inr l'"
    by blast
  define G where "G = \<lparr>gamma_log_normalizer = l',
      gamma_alpha = sadd (ssub (alpha gg_scenario) (0.5 * real 1)) 1, gamma_beta = b'\<rparr>"
  have res: "event_logsumexp gg_scenario = Inr G"
    using L sol b' dg l' by (simp add: event_logsumexp_def d G_def Let_def)
  have "shape (gamma_alpha G) = []" "elems (gamma_alpha G) [] = 2"
    by (simp_all add: G_def sadd_def ssub_def tmap_def elems_mk gg_scenario_def scalar_def)
  with res show ?thesis by auto
qed

text \<open>
  Claim C1, amended in its scenario only. For an instance of event dimension \<open>n\<close> whose
  fields have broadcast-compatible batch shapes and whose precision matrices are
  symmetric and Cholesky-factorable (every pivot positive), \<open>event_logsumexp\<close> returns a
  Gamma \<open>G\<close>, and there are a lower-triangular \<open>L\<close> with positive diagonal and
  \<open>L L\<^sup>T = precision\<close> and a \<open>w\<close> with \<open>L w = info_vec\<close> such that, entry by entry,
  \<open>alpha' = alpha - 0.5 * n + 1\<close>, \<open>beta' = beta - 0.5 * sum(w\<^sup>2)\<close> and
  \<open>log_normalizer' = log_normalizer + 0.5 * n * log(2 pi) - sum(log(diag(L)))\<close>, the last
  two over the broadcast of the batch shapes involved. The witness is the scenario:
  \<open>alpha' = 2\<close>, \<open>beta' = 1/2\<close>, \<open>log_normalizer' = 0.5 * log(2 pi) - 0.5 * log 2\<close>,
  derived from the characterisation alone (\<open>L = [[sqrt 2]]\<close>, \<open>w = [0]\<close>).
\<close>

theorem event_logsumexp_formulas:
  assumes inv: "gg_inv g" and d: "dim_of g = Inr n"
    and compat: "batch_shape g = Inr T"
    and sym: "symmetric_last2 (precision g)" and fact: "factorable (precision g)"
  shows "\<exists>G L w. event_logsumexp g = Inr G \<and>
     lower_factor_of L (precision g) \<and> solves_lower L w (info_vec g) \<and>
     shape (gamma_alpha G) = shape (alpha g) \<and>
     (\<forall>idx. valid_index (shape (alpha g)) idx \<longrightarrow>
        elems (gamma_alpha G) idx = elems (alpha g) idx - 0.5 * real n + 1) \<and>
     broadcast_shape [shape (beta g), shape_upto 1 (shape w)] = Inr (shape (gamma_beta G)) \<and>
     (\<forall>idx. valid_index (shape (gamma_beta G)) idx \<longrightarrow>
        elems (gamma_beta G) idx =
          bread (beta g) 0 idx [] - 0.5 * (\<Sum>k\<leftarrow>[0..<n]. (bread w 1 idx [k])\<^sup>2)) \<and>
     broadcast_shape [shape (log_normalizer g), shape_upto 2 (shape L)]
       = Inr (shape (gamma_log_normalizer G)) \<and>
     (\<forall>idx. valid_index (shape (gamma_log_normalizer G)) idx \<longrightarrow>
        elems (gamma_log_normalizer G) idx =
          bread (log_normalizer g) 0 idx [] + 0.5 * real n * ln (2 * pi)
          - (\<Sum>i\<leftarrow>[0..<n]. ln (bread L 2 idx [i, i])))"
proof -
  define P where "P = precision g"
  define iv where "iv = info_vec g"
  define Bi where "Bi = shape_upto 1 (shape iv)"
  define BP where "BP = shape_upto 2 (shape P)"
  define c where "c = 0.5 * real n * ln (2 * pi)"
  have si: "shape iv = Bi @ [n]" and sP: "shape P = BP @ [n, n]"
    using gg_inv_shapes [OF inv d] by (simp_all add: Bi_def BP_def P_def iv_def)
  note up = broadcast_shape_upper [OF compat [unfolded batch_shape_def]]
  have fT: "fits (shape (log_normalizer g)) T" "fits Bi T" "fits BP T" "fits (shape (beta g)) T"
    by (rule up, simp add: field_batch_shapes_def Bi_def BP_def P_def iv_def)+
  have fact': "factorable P" and sym': "symmetric_last2 P"
    using fact sym by (simp_all add: P_def)
  \<comment> \<open>the factor and the solution\<close>
  from rep_cholesky [OF sP fT(3) fact'] obtain L where L: "cholesky P = Inr L" "shape L = shape P"
    "\<And>b i j. valid_index BP b \<Longrightarrow> i < n \<Longrightarrow> j < n \<Longrightarrow>
        matrix_at L b i j = chol (matrix_at P b) i j"
    by blast
  from solve_sem [OF sP si fT(3) fT(2) fact'] L(1) obtain sol where
    sol: "triangular_solve (unsqueeze_last iv) L = Inr sol"
    by auto
  define w where "w = squeeze_last sol"
  have lf: "lower_factor_of L P"
    by (rule lower_factor_chol [OF sP L(2) L(3) fact' sym'])
  \<comment> \<open>the three target shapes\<close>
  from bshape_least [OF fT(2) fT(3)] obtain Bw where Bw: "bshape Bi BP = Some Bw" "fits Bw T"
    by blast
  from bshape_upper [OF Bw(1)] have upw: "fits Bi Bw" "fits BP Bw" by auto
  from solve_sem [OF sP si upw(2) upw(1) fact'] L(1) sol
  have rwB: "rep Bw [BP] [n, n] L (chol_at P BP)" "rep Bw [Bi, BP] [n] w (sol_at P BP iv)"
    by (auto simp: w_def)
  from solves_lower_fwd [OF sP si Bw(1) fact' L(2) rwB]
  have sl: "solves_lower L w iv" and sw: "shape w = Bw @ [n]"
    by auto
  have "\<forall>s \<in> set [shape (beta g), shape_upto 1 (shape w)]. fits s T"
    using fT(4) Bw(2) by (simp add: sw)
  from broadcast_shape_exists [OF this] obtain Tb where
    Tb: "broadcast_shape [shape (beta g), shape_upto 1 (shape w)] = Inr Tb"
    by blast
  have fTb: "fits (shape (beta g)) Tb" "fits Bw Tb"
    using broadcast_shape_upper [OF Tb] by (simp_all add: sw)
  have fTb': "fits Bi Tb" "fits BP Tb"
    using upw fTb(2) by (auto intro: fits_trans)
  have "\<forall>s \<in> set [shape (log_normalizer g), shape_upto 2 (shape L)]. fits s T"
    using fT(1,3) by (simp add: L(2) sP)
  from broadcast_shape_exists [OF this] obtain Tl where
    Tl: "broadcast_shape [shape (log_normalizer g), shape_upto 2 (shape L)] = Inr Tl"
    by blast
  have fTl: "fits (shape (log_normalizer g)) Tl" "fits BP Tl"
    using broadcast_shape_upper [OF Tl] by (simp_all add: L(2) sP)
  \<comment> \<open>beta\<close>
  from solve_sem [OF sP si fTb'(2) fTb'(1) fact'] L(1) sol
  have rwb: "rep Tb [Bi, BP] [n] w (sol_at P BP iv)"
    by (auto simp: w_def)
  from beta_sem [OF rwb fTb(1)] obtain b' where
    b': "tsub (beta g) (smul 0.5 (sum_last (tpow2 w))) = Inr b'"
    "rep Tb ([shape (beta g)] @ [Bi, BP]) [] b'
       (\<lambda>idx ev. bread (beta g) 0 idx [] - 0.5 * (\<Sum>k\<leftarrow>[0..<n]. (sol_at P BP iv idx [k])\<^sup>2))"
    by blast
  have finb: "shape b' = Tb \<and> (\<forall>idx. valid_index Tb idx \<longrightarrow> elems b' idx =
      bread (beta g) 0 idx [] - 0.5 * (\<Sum>k\<leftarrow>[0..<n]. (sol_at P BP iv idx [k])\<^sup>2))"
  proof (rule rep_final [OF b'(2)])
    fix U assume U: "\<forall>d \<in> set ([shape (beta g)] @ [Bi, BP]). fits d U"
    then have "fits Bi U" "fits BP U" by auto
    from bshape_least [OF this] Bw(1) have "fits Bw U" by auto
    with U show "fits Tb U"
      by (intro broadcast_shape_least [OF Tb]) (simp add: sw)
  qed
  have vb: "elems b' idx = bread (beta g) 0 idx [] - 0.5 * (\<Sum>k\<leftarrow>[0..<n]. (bread w 1 idx [k])\<^sup>2)"
    if v: "valid_index Tb idx" for idx
  proof -
    have "(\<Sum>k\<leftarrow>[0..<n]. (bread w 1 idx [k])\<^sup>2) = (\<Sum>k\<leftarrow>[0..<n]. (sol_at P BP iv idx [k])\<^sup>2)"
    proof (rule sum_list_cong_upt)
      fix k assume "k < n"
      then show "(bread w 1 idx [k])\<^sup>2 = (sol_at P BP iv idx [k])\<^sup>2"
        using rep_bread [OF rwb v, of "[k]"] by simp
    qed
    with finb v show ?thesis by simp
  qed
  \<comment> \<open>log_normalizer\<close>
  from rep_cholesky [OF sP fTl(2) fact'] L(1)
  have rLl: "rep Tl [BP] [n, n] L (\<lambda>idx ev. chol (matrix_at P (bidx BP idx)) (ev ! 0) (ev ! 1))"
    by auto
  from log_normalizer_sem [OF rLl fTl(1), of c] obtain dg l' where
    dg: "diagonal_last L = Inr dg"
    and l': "tadd (log_normalizer g) (rsub c (sum_last (tlog dg))) = Inr l'"
    "rep Tl ([shape (log_normalizer g)] @ [BP]) [] l'
       (\<lambda>idx ev. bread (log_normalizer g) 0 idx []
          + (c - (\<Sum>i\<leftarrow>[0..<n]. ln (chol (matrix_at P (bidx BP idx)) ([i, i] ! 0) ([i, i] ! 1)))))"
    by blast
  have finl: "shape l' = Tl \<and> (\<forall>idx. valid_index Tl idx \<longrightarrow> elems l' idx =
      bread (log_normalizer g) 0 idx []
          + (c - (\<Sum>i\<leftarrow>[0..<n]. ln (chol (matrix_at P (bidx BP idx)) ([i, i] ! 0) ([i, i] ! 1)))))"
  proof (rule rep_final [OF l'(2)])
    fix U assume "\<forall>d \<in> set ([shape (log_normalizer g)] @ [BP]). fits d U"
    then show "fits Tl U"
      by (intro broadcast_shape_least [OF Tl]) (simp add: L(2) sP)
  qed
  have vl: "elems l' idx = bread (log_normalizer g) 0 idx [] + 0.5 * real n * ln (2 * pi)
          - (\<Sum>i\<leftarrow>[0..<n]. ln (bread L 2 idx [i, i]))"
    if v: "valid_index Tl idx" for idx
  proof -
    have "(\<Sum>i\<leftarrow>[0..<n]. ln (bread L 2 idx [i, i]))
        = (\<Sum>i\<leftarrow>[0..<n]. ln (chol (matrix_at P (bidx BP idx)) ([i, i] ! 0) ([i, i] ! 1)))"
    proof (rule sum_list_cong_upt)
      fix i assume "i < n"
      then show "ln (bread L 2 idx [i, i])
          = ln (chol (matrix_at P (bidx BP idx)) ([i, i] ! 0) ([i, i] ! 1))"
        using rep_bread [OF rLl v, of "[i, i]"] by (simp add: numeral_2_eq_2)
    qed
    with finl v show ?thesis by (simp add: c_def)
  qed
  \<comment> \<open>the result\<close>
  define G where "G = \<lparr>gamma_log_normalizer = l', gamma_alpha = sadd (ssub (alpha g) (0.5 * real n)) 1,
      gamma_beta = b'\<rparr>"
  have res: "event_logsumexp g = Inr G"
    using L(1) sol b'(1) dg l'(1) [unfolded c_def]
    by (simp add: event_logsumexp_def d P_def [symmetric] iv_def [symmetric] w_def [symmetric]
        G_def Let_def)
  have va: "elems (gamma_alpha G) idx = elems (alpha g) idx - 0.5 * real n + 1"
    if "valid_index (shape (alpha g)) idx" for idx
    using that by (simp add: G_def sadd_def ssub_def tmap_def elems_mk)
  have sa: "shape (gamma_alpha G) = shape (alpha g)"
    by (simp add: G_def sadd_def ssub_def)
  show ?thesis
    apply (rule exI [where x = G], rule exI [where x = L], rule exI [where x = w])
    using res lf sl sa va Tb finb vb Tl finl vl
    by (simp add: G_def P_def iv_def)
qed

theorem event_logsumexp_formulas_witness:
  "gg_inv gg_scenario \<and> dim_of gg_scenario = Inr 1 \<and> batch_shape gg_scenario = Inr [] \<and>
   symmetric_last2 (precision gg_scenario) \<and> factorable (precision gg_scenario) \<and>
   (\<exists>G. event_logsumexp gg_scenario = Inr G \<and>
      shape (gamma_alpha G) = [] \<and> elems (gamma_alpha G) [] = 2 \<and>
      shape (gamma_beta G) = [] \<and> elems (gamma_beta G) [] = 1 / 2 \<and>
      shape (gamma_log_normalizer G) = [] \<and>
      elems (gamma_log_normalizer G) [] = 0.5 * ln (2 * pi) - 0.5 * ln 2)"
proof -
  have inv: "gg_inv gg_scenario"
    by (simp add: gg_inv_def gg_scenario_def ndim_def shape_from_def)
  have d: "dim_of gg_scenario = Inr 1"
    by (simp add: dim_of_def size_last_def gg_scenario_def)
  have bs: "batch_shape gg_scenario = Inr []"
    by (simp add: batch_shape_def broadcast_shape_def field_batch_shapes_def gg_scenario_def
        shape_upto_def bshape_def)
  from event_logsumexp_formulas [OF inv d bs symmetric_scenario factorable_scenario]
  obtain G L w where res: "event_logsumexp gg_scenario = Inr G"
    and lf: "lower_factor_of L (precision gg_scenario)"
    and sl: "solves_lower L w (info_vec gg_scenario)"
    and sa: "shape (gamma_alpha G) = shape (alpha gg_scenario)"
    and va: "\<forall>idx. valid_index (shape (alpha gg_scenario)) idx \<longrightarrow>
        elems (gamma_alpha G) idx = elems (alpha gg_scenario) idx - 0.5 * real 1 + 1"
    and sb: "broadcast_shape [shape (beta gg_scenario), shape_upto 1 (shape w)]
        = Inr (shape (gamma_beta G))"
    and vb: "\<forall>idx. valid_index (shape (gamma_beta G)) idx \<longrightarrow>
        elems (gamma_beta G) idx =
          bread (beta gg_scenario) 0 idx [] - 0.5 * (\<Sum>k\<leftarrow>[0..<1]. (bread w 1 idx [k])\<^sup>2)"
    and sln: "broadcast_shape [shape (log_normalizer gg_scenario), shape_upto 2 (shape L)]
       = Inr (shape (gamma_log_normalizer G))"
    and vl: "\<forall>idx. valid_index (shape (gamma_log_normalizer G)) idx \<longrightarrow>
        elems (gamma_log_normalizer G) idx =
          bread (log_normalizer gg_scenario) 0 idx [] + 0.5 * real 1 * ln (2 * pi)
          - (\<Sum>i\<leftarrow>[0..<1]. ln (bread L 2 idx [i, i]))"
    by blast
  have sL: "shape L = [1, 1]"
    using lf by (simp add: lower_factor_of_def gg_scenario_def)
  have L00: "0 < matrix_at L [] 0 0" "matrix_at L [] 0 0 * matrix_at L [] 0 0 = 2"
    using lf by (simp_all add: lower_factor_of_def gg_scenario_def shape_upto_def matrix_at_def
        mat_def elems_mk)
  have bL: "bread L 2 [] [0, 0] = matrix_at L [] 0 0"
    by (simp add: bread_def sL shape_upto_def bidx_def matrix_at_def)
  have "(matrix_at L [] 0 0)\<^sup>2 = 2" using L00(2) by (simp add: power2_eq_square)
  then have Lv: "matrix_at L [] 0 0 = sqrt 2"
    using L00(1) by (metis real_sqrt_abs abs_of_pos)
  have sw: "shape_upto 1 (shape w) = []"
    using sl by (simp add: solves_lower_def sL gg_scenario_def shape_upto_def bshape_def)
  have li: "last (shape (info_vec gg_scenario)) = 1"
    and bi: "bread (info_vec gg_scenario) 1 [] [0] = 0"
    by (simp_all add: gg_scenario_def bread_def shape_upto_def bidx_def vec_def elems_mk)
  from sl have "\<forall>idx i. valid_index (shape_upto 1 (shape w)) idx \<and>
        i < last (shape (info_vec gg_scenario)) \<longrightarrow>
        (\<Sum>k\<leftarrow>[0..<last (shape (info_vec gg_scenario))]. bread L 2 idx [i, k] * bread w 1 idx [k])
          = bread (info_vec gg_scenario) 1 idx [i]"
    unfolding solves_lower_def by blast
  from this [rule_format, of "[]" 0]
  have "bread L 2 [] [0, 0] * bread w 1 [] [0] = 0"
    unfolding sw li bi by simp
  then have w0: "bread w 1 [] [0] = 0"
    using L00(1) by (simp add: bL)
  have shb: "shape (gamma_beta G) = []"
    using sb unfolding sw by (simp add: broadcast_shape_def bshape_def gg_scenario_def)
  have shl: "shape (gamma_log_normalizer G) = []"
    using sln by (simp add: sL shape_upto_def broadcast_shape_def bshape_def gg_scenario_def)
  have a: "shape (gamma_alpha G) = []" "elems (gamma_alpha G) [] = 2"
    using sa va by (simp_all add: gg_scenario_def scalar_def elems_mk)
  have b: "elems (gamma_beta G) [] = 1 / 2"
    using vb w0 by (simp add: shb gg_scenario_def)
  have l: "elems (gamma_log_normalizer G) [] = 0.5 * ln (2 * pi) - 0.5 * ln 2"
    using vl by (simp add: shl bL Lv ln_sqrt gg_scenario_def)
  from res a shb b shl l inv d bs symmetric_scenario factorable_scenario
  show ?thesis by blast
qed

section \<open>Preservation of the shape invariant\<close>




section \<open>Marginalisation of one side\<close>

text \<open>
  Claim C3 says that \<open>marginalize(left, right)\<close> with exactly one of the two positive
  returns a GaussianGamma whose \<open>alpha\<close> and \<open>beta\<close> are those of the instance. The code
  returns nothing: whenever \<open>left\<close> and \<open>right\<close> are not both zero, the method either
  raises \<open>NotImplementedError\<close>, fails in the tensor library, or reaches its last line,
  which calls the constructor with three of its five arguments.
\<close>

theorem marginalize_one_sided_never_returns:
  assumes "\<not> (left = 0 \<and> right = 0)"
  shows "marginalize g left right \<noteq> Inr g'"
proof (cases "0 < left \<and> 0 < right")
  case True
  then show ?thesis by (simp add: marginalize_def)
next
  case False
  have "marginalize g left right =
    bindE (dim_of g) (\<lambda>n.
        let n_b = left + right;
            a = Slice (Some left) (Some (int n - right)) None;
            b = (if left \<noteq> 0 then Slice None (Some left) None
                 else Slice (Some (int n - right)) None None)
        in
        bindE (getitem (precision g) [Ellipsis, a, a]) (\<lambda>P_aa.
        bindE (getitem (precision g) [Ellipsis, b, a]) (\<lambda>P_ba.
        bindE (getitem (precision g) [Ellipsis, b, b]) (\<lambda>P_bb.
        bindE (cholesky P_bb) (\<lambda>P_b.
        bindE (triangular_solve P_ba P_b) (\<lambda>P_a.
        bindE (transpose_last P_a) (\<lambda>P_at.
        bindE (matmul P_at P_a) (\<lambda>m1.
        bindE (tsub P_aa m1) (\<lambda>P'.
        bindE (getitem (info_vec g) [Ellipsis, a]) (\<lambda>info_a.
        bindE (getitem (info_vec g) [Ellipsis, b]) (\<lambda>info_b.
        bindE (triangular_solve (unsqueeze_last info_b) P_b) (\<lambda>b_tmp.
        bindE (matmul P_at b_tmp) (\<lambda>m2.
        bindE (tsub info_a (squeeze_last m2)) (\<lambda>iv'.
        bindE (diagonal_last P_b) (\<lambda>dg.
        bindE (tsub (sadd (log_normalizer g) (0.5 * real_of_int n_b * ln (2 * pi)))
                 (sum_last (tlog dg))) (\<lambda>l1.
        bindE (tadd l1 (smul 0.5 (sum_last (tpow2 (squeeze_last b_tmp))))) (\<lambda>ln'.
        GaussianGamma_init [ln', iv', P'])))))))))))))))))"
    using assms False unfolding marginalize_def by presburger
  also have "\<dots> \<noteq> Inr g'"
    unfolding Let_def by (intro bindE_never) simp
  finally show ?thesis .
qed

theorem marginalize_one_sided_never_returns_witness:
  "(1::int) \<noteq> 0 \<and> (\<forall>g'. marginalize gg_dim2 1 0 \<noteq> Inr g')"
  using marginalize_one_sided_never_returns [where left = 1 and right = 0 and g = gg_dim2]
  by simp

text \<open>
  Claim C3 at a concrete input: the instance of event dimension 2 with identity
  precision, \<open>left = 1\<close>, \<open>right = 0\<close>. Every tensor operation of the method succeeds and
  the constructor call \<open>GaussianGamma(log_normalizer, info_vec, precision)\<close> is a
  \<open>TypeError\<close>.
\<close>

theorem marginalize_one_sided_type_error:
  "gg_inv gg_dim2 \<and> dim_of gg_dim2 = Inr 2 \<and> (1::int) + 0 \<le> 2 \<and>
   marginalize gg_dim2 1 0 = Inl TypeError"
proof -
  have inv: "gg_inv gg_dim2"
    by (simp add: gg_inv_def gg_dim2_def ndim_def shape_from_def)
  have d: "dim_of gg_dim2 = Inr 2"
    by (simp add: dim_of_def size_last_def gg_dim2_def)
  have sl: "shape (log_normalizer gg_dim2) = []"
    by (simp add: gg_dim2_def scalar_def)
  from P_aa_dim2 obtain P_aa where P_aa:
    "getitem (precision gg_dim2)
       [Ellipsis, Slice (Some 1) (Some (int 2 - 0)) None, Slice (Some 1) (Some (int 2 - 0)) None]
     = Inr P_aa" "shape P_aa = [1, 1]" by blast
  from P_ba_dim2 obtain P_ba where P_ba:
    "getitem (precision gg_dim2)
       [Ellipsis, Slice None (Some 1) None, Slice (Some 1) (Some (int 2 - 0)) None] = Inr P_ba"
    "shape P_ba = [1, 1]" by blast
  from P_bb_dim2 obtain P_bb where P_bb:
    "getitem (precision gg_dim2) [Ellipsis, Slice None (Some 1) None, Slice None (Some 1) None]
     = Inr P_bb" "shape P_bb = [1, 1]" "elems P_bb [0, 0] = 1" by blast
  from cholesky_11 [of P_bb] P_bb obtain P_b where P_b:
    "cholesky P_bb = Inr P_b" "shape P_b = [1, 1]" by auto
  from solve_11 [OF P_b(2) P_ba(2)] obtain P_a where P_a:
    "triangular_solve P_ba P_b = Inr P_a" "shape P_a = [1, 1]" by blast
  from transpose_11 [OF P_a(2)] obtain P_at where P_at:
    "transpose_last P_a = Inr P_at" "shape P_at = [1, 1]" by blast
  from matmul_11 [OF P_at(2) P_a(2)] obtain m1 where m1:
    "matmul P_at P_a = Inr m1" "shape m1 = [1, 1]" by blast
  from tbin_11 [OF P_aa(2) m1(2), of "(-)"] obtain P' where P':
    "tsub P_aa m1 = Inr P'" by (auto simp: tsub_def)
  from info_a_dim2 obtain info_a where info_a:
    "getitem (info_vec gg_dim2) [Ellipsis, Slice (Some 1) (Some (int 2 - 0)) None] = Inr info_a"
    "shape info_a = [1]" by blast
  from info_b_dim2 obtain info_b where info_b:
    "getitem (info_vec gg_dim2) [Ellipsis, Slice None (Some 1) None] = Inr info_b"
    "shape info_b = [1]" by blast
  have su: "shape (unsqueeze_last info_b) = [1, 1]"
    using info_b(2) by simp
  from solve_11 [OF P_b(2) su] obtain b_tmp where b_tmp:
    "triangular_solve (unsqueeze_last info_b) P_b = Inr b_tmp" "shape b_tmp = [1, 1]" by blast
  from matmul_11 [OF P_at(2) b_tmp(2)] obtain m2 where m2:
    "matmul P_at b_tmp = Inr m2" "shape m2 = [1, 1]" by blast
  have sq: "shape (squeeze_last m2) = [1]" "shape (squeeze_last b_tmp) = [1]"
    using m2(2) b_tmp(2) by (simp_all add: squeeze_last_def)
  from tbin_1 [OF info_a(2) sq(1), of "(-)"] obtain iv' where iv':
    "tsub info_a (squeeze_last m2) = Inr iv'" by (auto simp: tsub_def)
  from diagonal_11 [OF P_b(2)] obtain dg where dg:
    "diagonal_last P_b = Inr dg" "shape dg = [1]" by blast
  have s1: "shape (sadd (log_normalizer gg_dim2) c) = []" for c
    using sl by (simp add: sadd_def tmap_def)
  have s2: "shape (sum_last (tlog dg)) = []"
    using dg(2) by (simp add: sum_last_def tlog_def tmap_def)
  from tbin_0 [OF s1 s2, of "(-)"] obtain l1 where l1:
    "tsub (sadd (log_normalizer gg_dim2) (0.5 * real_of_int (1 + 0) * ln (2 * pi)))
       (sum_last (tlog dg)) = Inr l1" "shape l1 = []" by (auto simp: tsub_def)
  have s3: "shape (smul 0.5 (sum_last (tpow2 (squeeze_last b_tmp)))) = []"
    using sq(2) by (simp add: sum_last_def tpow2_def smul_def tmap_def)
  from tbin_0 [OF l1(2) s3, of "(+)"] obtain ln' where ln':
    "tadd l1 (smul 0.5 (sum_last (tpow2 (squeeze_last b_tmp)))) = Inr ln'"
    by (auto simp: tadd_def)
  have "marginalize gg_dim2 1 0 = Inl TypeError"
    unfolding marginalize_def d bindE_simps Let_def
    using P_aa(1) P_ba(1) P_bb(1) P_b(1) P_a(1) P_at(1) m1(1) P' info_a(1) info_b(1)
      b_tmp(1) m2(1) iv' dg(1) l1(1) ln'
    by simp
  then show ?thesis using inv d by simp
qed

section \<open>Conditioning\<close>

text \<open>
  Claim C2 says that \<open>g.log_density(x, s)\<close> equals
  \<open>g.condition(right).log_density(left, s)\<close> for \<open>x = concat(left, right)\<close>. The code
  does not do that: \<open>condition\<close> computes
  \<open>beta - 0.5 * b P_bb b + b . info_b\<close> where the decomposition needs
  \<open>beta + 0.5 * b P_bb b - b . info_b\<close>. For the instance of event dimension 2 with
  identity precision, zero \<open>info_vec\<close>, \<open>alpha = beta = 1\<close>, \<open>log_normalizer = 0\<close>, at
  \<open>x = [0, 1]\<close> split into \<open>left = [0]\<close> and \<open>right = [1]\<close>, and \<open>s = 1\<close>, the first
  log-density is \<open>-3/2\<close> and the second is \<open>-1/2\<close>.
\<close>

theorem condition_changes_density:
  "gg_inv gg_dim2 \<and> dim_of gg_dim2 = Inr 2 \<and> size_last (vec [1]) = Inr 1 \<and>
   (\<exists>r g' r'. log_density gg_dim2 (vec [0, 1]) (scalar 1) = Inr r \<and>
      condition gg_dim2 (vec [1]) = Inr g' \<and>
      log_density g' (vec [0]) (scalar 1) = Inr r' \<and>
      shape r = [] \<and> shape r' = [] \<and> elems r [] = - (3 / 2) \<and> elems r' [] = - (1 / 2) \<and>
      r \<noteq> r')"
proof -
  have inv: "gg_inv gg_dim2"
    by (simp add: gg_inv_def gg_dim2_def ndim_def shape_from_def)
  have d: "dim_of gg_dim2 = Inr 2"
    by (simp add: dim_of_def size_last_def gg_dim2_def)
  have k: "size_last (vec [1]) = Inr 1"
    by (simp add: size_last_def)
  from log_density_dim2_at obtain r where r:
    "log_density gg_dim2 (vec [0, 1]) (scalar 1) = Inr r" "shape r = []" "elems r [] = - (3 / 2)"
    by blast
  from condition_dim2 obtain g' where g': "condition gg_dim2 (vec [1]) = Inr g'"
    "shape (precision g') = [1, 1]" "shape (info_vec g') = [1]"
    "shape (log_normalizer g') = []" "shape (alpha g') = []" "shape (beta g') = []"
    "elems (precision g') [0, 0] = 1" "elems (info_vec g') [0] = 0"
    "elems (log_normalizer g') [] = 0" "elems (alpha g') [] = 1" "elems (beta g') [] = 1 / 2"
    by blast
  have sv: "shape (vec [0]) = [1]" "elems (vec [0]) [0] = 0"
    and ss: "shape (scalar 1) = []" "elems (scalar 1) [] = 1"
    by (simp_all add: vec_def scalar_def elems_mk)
  from log_density_dim1 [OF g'(2) g'(3) g'(4) g'(5) g'(6) sv(1) ss(1)]
  obtain r' where r': "log_density g' (vec [0]) (scalar 1) = Inr r'" "shape r' = []"
    "elems r' [] = - (1 / 2)"
    unfolding g'(7-11) sv(2) ss(2) by auto
  from r(3) r'(3) have "r \<noteq> r'" by auto
  with inv d k r g'(1) r' show ?thesis by blast
qed

end
